theory Spec2Isabelle
  imports Main "HOL-Library.Signed_Division"
begin

unbundle bit_operations_syntax

section \<open>The event loop of eco\_ae.c\<close>

text \<open>
  A shallow embedding of \<^verbatim>\<open>src/eco_ae.c\<close>. The loop object \<^verbatim>\<open>co_poll_t\<close> is a record; every
  function of the C file that mutates it takes the record and returns the new one.
  C \<^verbatim>\<open>int\<close>, \<^verbatim>\<open>long\<close> and \<^verbatim>\<open>es_int64_t\<close> values are HOL integers: the bitwise operators of C
  on two's complement integers are \<open>AND\<close>, \<open>OR\<close> and \<open>NOT\<close> on \<open>int\<close>, and no arithmetic of
  the file is modelled beyond the range of its C type (the id counter would need
  \<open>2^63\<close> timer creations to leave it).

  A function pointer is a number, \<open>0\<close> the null pointer; so is the opaque \<^verbatim>\<open>clientData\<close>.
\<close>

type_synonym proc = nat
type_synonym cdata = nat

subsection \<open>Constants of the header\<close>

text \<open>
  Modelled from the spec: the header \<^verbatim>\<open>eco_ae.h\<close> is not among the sources. The spec calls
  the interest mask a bitwise OR of NONE, READABLE and WRITABLE, the flags of one
  iteration "file events" and "timer events", and the id of a cancelled timer a reserved
  sentinel; the values are those of the library this file derives from.
\<close>

definition ECO_POLL_NONE :: int where "ECO_POLL_NONE = 0"
definition ECO_POLL_READABLE :: int where "ECO_POLL_READABLE = 1"
definition ECO_POLL_WRITABLE :: int where "ECO_POLL_WRITABLE = 2"
definition ECO_POLL_FILE_EVENTS :: int where "ECO_POLL_FILE_EVENTS = 1"
definition ECO_POLL_TIME_EVENTS :: int where "ECO_POLL_TIME_EVENTS = 2"
definition ECO_POLL_NOMORE :: int where "ECO_POLL_NOMORE = - 1"
definition ECO_POLL_DELETED_EVENT_ID :: int where "ECO_POLL_DELETED_EVENT_ID = - 1"

datatype es_status = ES_SUCCESS | ES_FAILURE

subsection \<open>Data\<close>

record coFileEvent =
  mask :: int
  rfileProc :: proc
  wfileProc :: proc
  clientData :: cdata

text \<open>
  A node of the timer list. The field \<open>born\<close> is not a field of the C struct: it is the
  id the node was created with, kept when \<^verbatim>\<open>te->id\<close> is overwritten by the deletion
  sentinel, and stands for the identity (the address) of the node. No function reads it.
\<close>

record coTimeEvent =
  id_te :: int
  when_sec :: int
  when_ms :: int
  timeProc :: proc
  finalizerProc :: proc
  clientData_te :: cdata
  born :: int

text \<open>
  The loop. \<^verbatim>\<open>events\<close> is the descriptor table, indexed by descriptor; \<^verbatim>\<open>timeEventHead\<close>
  is the linked list of timers, head first. The scratch array \<^verbatim>\<open>fired\<close> and the backend's
  \<^verbatim>\<open>apidata\<close> belong to the backend, which is outside this file: what the backend
  answers is an argument of the function that calls it.
\<close>

record co_poll =
  maxfd :: int
  setsize :: int
  timeEventNextId :: int
  lastTime :: int
  events :: "coFileEvent list"
  timeEventHead :: "coTimeEvent list"

subsection \<open>Creation\<close>

text \<open>
  \<^verbatim>\<open>eco_poll_create\<close>: \<open>None\<close> is the NULL it returns when an allocation or the backend's
  \<^verbatim>\<open>aeApiCreate\<close> fails. The table comes from \<^verbatim>\<open>malloc\<close>: \<open>garbage\<close> is what the memory held,
  and only the \<^verbatim>\<open>mask\<close> of each slot is initialised.
\<close>

definition eco_poll_create ::
  "int \<Rightarrow> bool \<Rightarrow> bool \<Rightarrow> int \<Rightarrow> (nat \<Rightarrow> coFileEvent) \<Rightarrow> co_poll option" where
  "eco_poll_create sz malloc_ok api_ok now garbage =
     (if \<not> malloc_ok then None
      else if \<not> api_ok then None
      else Some \<lparr> maxfd = - 1, setsize = sz, timeEventNextId = 0, lastTime = now,
                  events = map (\<lambda>i. (garbage i)\<lparr>mask := ECO_POLL_NONE\<rparr>) [0..<nat sz],
                  timeEventHead = [] \<rparr>)"

subsection \<open>Descriptor events\<close>

text \<open>
  The three functions test \<^verbatim>\<open>fd >= poll->setsize\<close> only. A negative \<^verbatim>\<open>fd\<close> passes the
  test and addresses memory before the table: undefined behaviour, the result \<open>None\<close>.
  \<open>api_ret\<close> is what \<^verbatim>\<open>aeApiAddEvent\<close> (\<^verbatim>\<open>aeApiUpdEvent\<close>) returned.
  The assignment to \<^verbatim>\<open>errno\<close> on a descriptor out of range is not modelled.
\<close>

definition eco_poll_file_event_create ::
  "co_poll \<Rightarrow> int \<Rightarrow> int \<Rightarrow> proc \<Rightarrow> cdata \<Rightarrow> int \<Rightarrow> (es_status \<times> co_poll) option" where
  "eco_poll_file_event_create poll fd m proc cd api_ret =
     (if fd \<ge> setsize poll then Some (ES_FAILURE, poll)
      else if fd < 0 then None
      else if api_ret = - 1 then Some (ES_FAILURE, poll)
      else
        let fe = events poll ! nat fd;
            fe = fe\<lparr>mask := mask fe OR m\<rparr>;
            fe = (if m AND ECO_POLL_READABLE \<noteq> 0 then fe\<lparr>rfileProc := proc\<rparr> else fe);
            fe = (if m AND ECO_POLL_WRITABLE \<noteq> 0 then fe\<lparr>wfileProc := proc\<rparr> else fe);
            fe = fe\<lparr>clientData := cd\<rparr>
        in Some (ES_SUCCESS,
                 poll\<lparr>events := (events poll)[nat fd := fe],
                      maxfd := (if fd > maxfd poll then fd else maxfd poll)\<rparr>))"

definition eco_poll_file_event_update ::
  "co_poll \<Rightarrow> int \<Rightarrow> int \<Rightarrow> proc \<Rightarrow> cdata \<Rightarrow> int \<Rightarrow> (es_status \<times> co_poll) option" where
  "eco_poll_file_event_update poll fd m proc cd api_ret =
     (if fd \<ge> setsize poll then Some (ES_FAILURE, poll)
      else if fd < 0 then None
      else if api_ret = - 1 then Some (ES_FAILURE, poll)
      else
        let fe = events poll ! nat fd;
            fe = fe\<lparr>mask := mask fe OR m\<rparr>;
            fe = (if m AND ECO_POLL_READABLE \<noteq> 0 then fe\<lparr>rfileProc := proc\<rparr> else fe);
            fe = (if m AND ECO_POLL_WRITABLE \<noteq> 0 then fe\<lparr>wfileProc := proc\<rparr> else fe);
            fe = fe\<lparr>clientData := cd\<rparr>
        in Some (ES_SUCCESS,
                 poll\<lparr>events := (events poll)[nat fd := fe],
                      maxfd := (if fd > maxfd poll then fd else maxfd poll)\<rparr>))"

text \<open>
  The backward scan of \<^verbatim>\<open>eco_poll_file_event_delete\<close>:
  \<^verbatim>\<open>for (j = maxfd-1; j >= 0; j--) if (events[j].mask != NONE) break;\<close>
  \<open>scan_maxfd ev k\<close> is the value of \<open>j\<close> after the loop started at \<open>j = k - 1\<close>.
\<close>

fun scan_maxfd :: "coFileEvent list \<Rightarrow> nat \<Rightarrow> int" where
  "scan_maxfd ev 0 = - 1"
| "scan_maxfd ev (Suc j) =
     (if mask (ev ! j) \<noteq> ECO_POLL_NONE then int j else scan_maxfd ev j)"

definition eco_poll_file_event_delete :: "co_poll \<Rightarrow> int \<Rightarrow> int \<Rightarrow> co_poll option" where
  "eco_poll_file_event_delete poll fd m =
     (if fd \<ge> setsize poll then Some poll
      else if fd < 0 then None
      else
        let fe = events poll ! nat fd in
        if mask fe = ECO_POLL_NONE then Some poll
        else
          let fe = fe\<lparr>mask := mask fe AND NOT m\<rparr>;
              poll = poll\<lparr>events := (events poll)[nat fd := fe]\<rparr>
          in if fd = maxfd poll \<and> mask fe = ECO_POLL_NONE
             then Some (poll\<lparr>maxfd := scan_maxfd (events poll) (nat (maxfd poll))\<rparr>)
             else Some poll)"

definition eco_poll_get_file_events :: "co_poll \<Rightarrow> int \<Rightarrow> int option" where
  "eco_poll_get_file_events poll fd =
     (if fd \<ge> setsize poll then Some 0
      else if fd < 0 then None
      else Some (mask (events poll ! nat fd)))"

subsection \<open>Timers\<close>

text \<open>
  \<^verbatim>\<open>aeGetTime\<close> reads the clock; its answer \<open>(seconds, milliseconds)\<close> is an argument.
  C division truncates towards zero: \<open>sdiv\<close> and \<open>smod\<close>.
\<close>

definition aeAddMillisecondsToNow :: "int \<Rightarrow> int \<times> int \<Rightarrow> int \<times> int" where
  "aeAddMillisecondsToNow milliseconds cur =
     (let when_sec = fst cur + milliseconds sdiv 1000;
          when_ms = snd cur + milliseconds smod 1000
      in if when_ms \<ge> 1000 then (when_sec + 1, when_ms - 1000) else (when_sec, when_ms))"

text \<open>
  \<^verbatim>\<open>eco_poll_time_event_create\<close> returns an \<^verbatim>\<open>es_int64_t\<close>: the id, or the constant
  \<^verbatim>\<open>ES_FAILURE\<close> when \<^verbatim>\<open>malloc\<close> returns NULL (\<open>malloc_ok\<close> false); the two are the sides of
  a sum here.
\<close>

definition eco_poll_time_event_create ::
  "co_poll \<Rightarrow> int \<Rightarrow> proc \<Rightarrow> cdata \<Rightarrow> proc \<Rightarrow> bool \<Rightarrow> int \<times> int \<Rightarrow> (es_status + int) \<times> co_poll" where
  "eco_poll_time_event_create poll milliseconds proc cd fin malloc_ok cur =
     (let i = timeEventNextId poll;
          poll = poll\<lparr>timeEventNextId := i + 1\<rparr>
      in if \<not> malloc_ok then (Inl ES_FAILURE, poll)
         else
           let w = aeAddMillisecondsToNow milliseconds cur;
               te = \<lparr> id_te = i, when_sec = fst w, when_ms = snd w, timeProc = proc,
                      finalizerProc = fin, clientData_te = cd, born = i \<rparr>
           in (Inr i, poll\<lparr>timeEventHead := te # timeEventHead poll\<rparr>))"

text \<open>The loop of \<^verbatim>\<open>eco_poll_time_event_delete\<close>: the first node with the id is marked.\<close>

fun mark_deleted :: "coTimeEvent list \<Rightarrow> int \<Rightarrow> coTimeEvent list option" where
  "mark_deleted [] i = None"
| "mark_deleted (te # tes) i =
     (if id_te te = i then Some (te\<lparr>id_te := ECO_POLL_DELETED_EVENT_ID\<rparr> # tes)
      else map_option ((#) te) (mark_deleted tes i))"

definition eco_poll_time_event_delete :: "co_poll \<Rightarrow> int \<Rightarrow> es_status \<times> co_poll" where
  "eco_poll_time_event_delete poll i =
     (case mark_deleted (timeEventHead poll) i of
        Some tes \<Rightarrow> (ES_SUCCESS, poll\<lparr>timeEventHead := tes\<rparr>)
      | None \<Rightarrow> (ES_FAILURE, poll))"

definition eco_poll_time_fire_all :: "co_poll \<Rightarrow> int \<times> int \<Rightarrow> es_status \<times> co_poll" where
  "eco_poll_time_fire_all poll cur =
     (ES_SUCCESS,
      poll\<lparr>timeEventHead :=
             map (\<lambda>te. if id_te te \<noteq> ECO_POLL_DELETED_EVENT_ID
                       then te\<lparr>when_sec := fst cur, when_ms := snd cur\<rparr> else te)
                 (timeEventHead poll)\<rparr>)"

text \<open>
  \<^verbatim>\<open>aeSearchNearestTimer\<close>: \<open>nearest_from\<close> is the loop, with the value of \<^verbatim>\<open>nearest\<close>
  so far; NULL is \<open>None\<close>.
\<close>

fun nearest_from :: "coTimeEvent option \<Rightarrow> coTimeEvent list \<Rightarrow> coTimeEvent option" where
  "nearest_from nearest [] = nearest"
| "nearest_from nearest (te # tes) =
     nearest_from
       (case nearest of
          None \<Rightarrow> Some te
        | Some n \<Rightarrow>
            if when_sec te < when_sec n \<or> (when_sec te = when_sec n \<and> when_ms te < when_ms n)
            then Some te else Some n)
       tes"

definition aeSearchNearestTimer :: "co_poll \<Rightarrow> coTimeEvent option" where
  "aeSearchNearestTimer poll = nearest_from None (timeEventHead poll)"

subsection \<open>Callbacks and the environment\<close>

text \<open>
  A callback receives the loop and may call its functions while the loop is dispatching.
  What a callback does to the loop is the list of the calls it makes, each with the
  answers of the backend, of \<^verbatim>\<open>malloc\<close> and of the clock that the call receives. Callbacks
  that re-enter \<^verbatim>\<open>eco_poll_process_events\<close>, resize or destroy the loop are not modelled:
  the pointers \<^verbatim>\<open>fe\<close>, \<^verbatim>\<open>te\<close> and \<^verbatim>\<open>prev\<close> of the dispatching function would dangle.
\<close>

datatype action =
    FileEventCreate int int proc cdata int
  | FileEventUpdate int int proc cdata int
  | FileEventDelete int int
  | TimeEventCreate int proc cdata proc bool "int \<times> int"
  | TimeEventDelete int
  | TimeFireAll "int \<times> int"

fun apply_action :: "action \<Rightarrow> co_poll \<Rightarrow> co_poll option" where
  "apply_action (FileEventCreate fd m p cd r) poll =
     map_option snd (eco_poll_file_event_create poll fd m p cd r)"
| "apply_action (FileEventUpdate fd m p cd r) poll =
     map_option snd (eco_poll_file_event_update poll fd m p cd r)"
| "apply_action (FileEventDelete fd m) poll = eco_poll_file_event_delete poll fd m"
| "apply_action (TimeEventCreate ms p cd fin ok cur) poll =
     Some (snd (eco_poll_time_event_create poll ms p cd fin ok cur))"
| "apply_action (TimeEventDelete i) poll = Some (snd (eco_poll_time_event_delete poll i))"
| "apply_action (TimeFireAll cur) poll = Some (snd (eco_poll_time_fire_all poll cur))"

fun apply_actions :: "action list \<Rightarrow> co_poll \<Rightarrow> co_poll option" where
  "apply_actions [] poll = Some poll"
| "apply_actions (a # as) poll =
     (case apply_action a poll of None \<Rightarrow> None | Some p \<Rightarrow> apply_actions as p)"

text \<open>
  The environment of one run: every answer it gives is indexed by the number of
  questions asked so far (\<open>tick\<close>), so that any behaviour of the clock, of the backend and
  of the callbacks, also one that depends on the arguments or on the past, is some
  environment. \<open>callback E n\<close> is what the callback invoked at tick \<open>n\<close> does to the loop and
  the value it returns (read for a timer callback only).
\<close>

record env =
  time_now :: "nat \<Rightarrow> int"
  aeGetTime :: "nat \<Rightarrow> int \<times> int"
  aeApiPoll :: "nat \<Rightarrow> (int \<times> int) option \<Rightarrow> (int \<times> int) list"
  callback :: "nat \<Rightarrow> action list \<times> int"

text \<open>
  The invocations of callbacks, in order, with the arguments passed; the last argument of
  a timer callback or finalizer event is the \<open>born\<close> of the node, not an argument of
  the C call.
\<close>

datatype call =
    CallFileProc proc int cdata int
  | CallTimeProc proc int cdata int
  | CallFinalizer proc cdata int

record run =
  loop :: co_poll
  tick :: nat
  calls :: "call list"

definition invoke :: "env \<Rightarrow> call \<Rightarrow> run \<Rightarrow> (int \<times> run) option" where
  "invoke E c s =
     (let r = callback E (tick s) in
      case apply_actions (fst r) (loop s) of
        None \<Rightarrow> None
      | Some p \<Rightarrow> Some (snd r, s\<lparr>loop := p, tick := tick s + 1, calls := calls s @ [c]\<rparr>))"

subsection \<open>The timer sweep\<close>

text \<open>
  The main loop of \<^verbatim>\<open>processTimeEvents\<close>. Callbacks only prepend nodes and change fields
  in place, so a node keeps its distance to the end of the list: the cursor \<^verbatim>\<open>te\<close> is the
  number \<open>n\<close> of nodes from \<^verbatim>\<open>te\<close> to the end, \<^verbatim>\<open>prev\<close> likewise (\<open>None\<close> for NULL).

  \<open>sweep_step\<close> is the body of the loop for \<^verbatim>\<open>te\<close> not NULL; it returns the new \<^verbatim>\<open>prev\<close>, the
  new count and the new state, and the cursor moves to \<open>n - 1\<close>. Unlinking writes
  \<^verbatim>\<open>te->next\<close> into \<^verbatim>\<open>poll->timeEventHead\<close> when \<^verbatim>\<open>prev\<close> is NULL, dropping whatever stands
  before \<^verbatim>\<open>te\<close>, and into \<^verbatim>\<open>prev->next\<close> otherwise, after which \<^verbatim>\<open>prev\<close> stands directly
  before the new cursor. A cursor beyond the list cannot arise (the list shrinks by
  unlinking only); the model answers \<open>None\<close> there, as it does for the call through a
  null \<^verbatim>\<open>timeProc\<close>.
\<close>

text \<open>
  \<open>due now te\<close> is the test \<^verbatim>\<open>now_sec > te->when_sec || (now_sec == te->when_sec && now_ms >=
  te->when_ms)\<close>; \<open>unlinked n pv L\<close> is the list \<open>L\<close> after the node at distance \<open>n\<close> from the end
  has been unlinked, \<open>pv\<close> being \<^verbatim>\<open>prev\<close>.
\<close>

definition due :: "int \<times> int \<Rightarrow> coTimeEvent \<Rightarrow> bool" where
  "due now te \<longleftrightarrow> fst now > when_sec te \<or> (fst now = when_sec te \<and> snd now \<ge> when_ms te)"

definition unlinked :: "nat \<Rightarrow> nat option \<Rightarrow> 'a list \<Rightarrow> 'a list" where
  "unlinked n pv L =
     (case pv of None \<Rightarrow> drop (Suc (length L - n)) L
      | Some p \<Rightarrow> take (Suc (length L - p)) L @ drop (Suc (length L - n)) L)"

definition sweep_step ::
  "env \<Rightarrow> int \<Rightarrow> nat \<Rightarrow> nat option \<Rightarrow> int \<Rightarrow> run \<Rightarrow> (nat option \<times> int \<times> run) option" where
  "sweep_step E maxId n pv processed s =
     (let L = timeEventHead (loop s); i = length L - n; te = L ! i in
      if n = 0 \<or> length L < n then None
      else if id_te te = ECO_POLL_DELETED_EVENT_ID then
        let pv' = (case pv of None \<Rightarrow> None | Some p \<Rightarrow> Some n);
            s1 = s\<lparr>loop := (loop s)\<lparr>timeEventHead := unlinked n pv L\<rparr>\<rparr>
        in if finalizerProc te \<noteq> 0
           then map_option (\<lambda>r. (pv', processed, snd r))
                  (invoke E (CallFinalizer (finalizerProc te) (clientData_te te) (born te)) s1)
           else Some (pv', processed, s1)
      else if id_te te > maxId then Some (pv, processed, s)
      else
        let now = aeGetTime E (tick s); s1 = s\<lparr>tick := tick s + 1\<rparr> in
        if due now te then
          if timeProc te = 0 then None
          else
            case invoke E (CallTimeProc (timeProc te) (id_te te) (clientData_te te) (born te)) s1 of
              None \<Rightarrow> None
            | Some (retval, s2) \<Rightarrow>
                let L2 = timeEventHead (loop s2); k = length L2 - n; te2 = L2 ! k in
                if retval \<noteq> ECO_POLL_NOMORE then
                  let w = aeAddMillisecondsToNow retval (aeGetTime E (tick s2));
                      te3 = te2\<lparr>when_sec := fst w, when_ms := snd w\<rparr>
                  in Some (Some n, processed + 1,
                           s2\<lparr>loop := (loop s2)\<lparr>timeEventHead := L2[k := te3]\<rparr>,
                              tick := tick s2 + 1\<rparr>)
                else
                  let te3 = te2\<lparr>id_te := ECO_POLL_DELETED_EVENT_ID\<rparr>
                  in Some (Some n, processed + 1,
                           s2\<lparr>loop := (loop s2)\<lparr>timeEventHead := L2[k := te3]\<rparr>\<rparr>)
        else Some (Some n, processed, s1))"

text \<open>The loop \<^verbatim>\<open>while(te)\<close>: it ends when the cursor has passed the last node.\<close>

fun sweep :: "env \<Rightarrow> int \<Rightarrow> nat \<Rightarrow> nat option \<Rightarrow> int \<Rightarrow> run \<Rightarrow> (int \<times> run) option" where
  "sweep E maxId 0 pv processed s = Some (processed, s)"
| "sweep E maxId (Suc m) pv processed s =
     (case sweep_step E maxId (Suc m) pv processed s of
        None \<Rightarrow> None
      | Some (pv', processed', s') \<Rightarrow> sweep E maxId m pv' processed' s')"

text \<open>The clock-regression guard: \<^verbatim>\<open>te->when_sec = 0\<close> for every node.\<close>

definition force_due :: "coTimeEvent list \<Rightarrow> coTimeEvent list" where
  "force_due tes = map (\<lambda>te. te\<lparr>when_sec := 0\<rparr>) tes"

definition processTimeEvents :: "env \<Rightarrow> run \<Rightarrow> (int \<times> run) option" where
  "processTimeEvents E s =
     (let now = time_now E (tick s);
          p = loop s;
          p = (if now < lastTime p then p\<lparr>timeEventHead := force_due (timeEventHead p)\<rparr> else p);
          p = p\<lparr>lastTime := now\<rparr>
      in sweep E (timeEventNextId p - 1) (length (timeEventHead p)) None 0
           (s\<lparr>loop := p, tick := tick s + 1\<rparr>))"

subsection \<open>One iteration\<close>

text \<open>
  One fired entry. \<^verbatim>\<open>fe\<close> points into the table, so the mask, the callbacks and the user
  data are read again after the readable callback has run. An entry whose descriptor is
  outside the table reads outside it: \<open>None\<close>.
\<close>

definition dispatch_entry :: "env \<Rightarrow> int \<times> int \<Rightarrow> run \<Rightarrow> run option" where
  "dispatch_entry E e s =
     (let fd = fst e; m = snd e in
      if fd < 0 \<or> fd \<ge> setsize (loop s) then None
      else
        let fe = events (loop s) ! nat fd;
            rfired = (mask fe AND m AND ECO_POLL_READABLE \<noteq> 0)
        in case (if rfired \<and> rfileProc fe \<noteq> 0
                 then map_option snd (invoke E (CallFileProc (rfileProc fe) fd (clientData fe) m) s)
                 else Some s) of
             None \<Rightarrow> None
           | Some s1 \<Rightarrow>
               let fe = events (loop s1) ! nat fd in
               if mask fe AND m AND ECO_POLL_WRITABLE \<noteq> 0
                  \<and> wfileProc fe \<noteq> 0 \<and> (\<not> rfired \<or> wfileProc fe \<noteq> rfileProc fe)
               then map_option snd (invoke E (CallFileProc (wfileProc fe) fd (clientData fe) m) s1)
               else Some s1)"

fun dispatch_fired :: "env \<Rightarrow> (int \<times> int) list \<Rightarrow> int \<Rightarrow> run \<Rightarrow> (int \<times> run) option" where
  "dispatch_fired E [] processed s = Some (processed, s)"
| "dispatch_fired E (e # es) processed s =
     (case dispatch_entry E e s of
        None \<Rightarrow> None
      | Some s1 \<Rightarrow> dispatch_fired E es (processed + 1) s1)"

text \<open>The timeout handed to the backend: \<open>None\<close> is the NULL that waits forever.\<close>

definition wait_budget ::
  "env \<Rightarrow> coTimeEvent option \<Rightarrow> int \<Rightarrow> run \<Rightarrow> (int \<times> int) option \<times> run" where
  "wait_budget E shortest timeout s =
     (case shortest of
        Some te \<Rightarrow>
          let now = aeGetTime E (tick s);
              tv_sec = when_sec te - fst now;
              tv = (if when_ms te < snd now
                    then (tv_sec - 1, ((when_ms te + 1000) - snd now) * 1000)
                    else (tv_sec, (when_ms te - snd now) * 1000));
              tv = (if fst tv < 0 then (0, snd tv) else tv);
              tv = (if snd tv < 0 then (fst tv, 0) else tv)
          in (Some tv, s\<lparr>tick := tick s + 1\<rparr>)
      | None \<Rightarrow>
          if timeout > 0 then (Some (timeout sdiv 1000, (timeout smod 1000) * 1000), s)
          else if timeout = 0 then (Some (0, 0), s)
          else (None, s))"

definition eco_poll_process_events :: "env \<Rightarrow> int \<Rightarrow> int \<Rightarrow> run \<Rightarrow> (int \<times> run) option" where
  "eco_poll_process_events E flags timeout s =
     (if flags AND ECO_POLL_TIME_EVENTS = 0 \<and> flags AND ECO_POLL_FILE_EVENTS = 0 then Some (0, s)
      else
        case (if maxfd (loop s) \<noteq> - 1 \<or> (flags AND ECO_POLL_TIME_EVENTS \<noteq> 0 \<and> timeout \<noteq> 0)
              then
                let shortest = (if flags AND ECO_POLL_TIME_EVENTS \<noteq> 0 \<and> timeout \<noteq> 0
                                then aeSearchNearestTimer (loop s) else None);
                    b = wait_budget E shortest timeout s;
                    s1 = snd b
                in dispatch_fired E (aeApiPoll E (tick s1) (fst b)) 0 (s1\<lparr>tick := tick s1 + 1\<rparr>)
              else Some (0, s)) of
          None \<Rightarrow> None
        | Some (processed, s2) \<Rightarrow>
            if flags AND ECO_POLL_TIME_EVENTS \<noteq> 0
            then map_option (\<lambda>r. (processed + fst r, snd r)) (processTimeEvents E s2)
            else Some (processed, s2))"

section \<open>Specification\<close>

text \<open>The predicates and the concrete loops the properties below are stated with.\<close>

text \<open>
  Deadlines compared as the pair (seconds, milliseconds); a timer with id \<open>i\<close> and a
  given deadline, and the same timer once cancelled.
\<close>

definition deadline_le :: "coTimeEvent \<Rightarrow> coTimeEvent \<Rightarrow> bool" where
  "deadline_le a b \<longleftrightarrow>
     when_sec a < when_sec b \<or> (when_sec a = when_sec b \<and> when_ms a \<le> when_ms b)"

definition timer_at :: "int \<Rightarrow> int \<Rightarrow> int \<Rightarrow> coTimeEvent" where
  "timer_at i sec ms = \<lparr> id_te = i, when_sec = sec, when_ms = ms, timeProc = 1,
                        finalizerProc = 0, clientData_te = 0, born = i \<rparr>"

definition cancelled_at :: "int \<Rightarrow> int \<Rightarrow> int \<Rightarrow> coTimeEvent" where
  "cancelled_at b sec ms = (timer_at b sec ms)\<lparr>id_te := ECO_POLL_DELETED_EVENT_ID\<rparr>"

text \<open>A loop of capacity 4 as \<^verbatim>\<open>eco_poll_create\<close> returns it, the table's memory zeroed.\<close>

definition fresh_loop :: co_poll where
  "fresh_loop = \<lparr> maxfd = - 1, setsize = 4, timeEventNextId = 0, lastTime = 0,
       events = replicate 4 \<lparr> mask = 0, rfileProc = 0, wfileProc = 0, clientData = 0 \<rparr>,
       timeEventHead = [] \<rparr>"

text \<open>Three timers, the second one cancelled, with the deadlines of the spec's example.\<close>

definition three_timers :: co_poll where
  "three_timers = fresh_loop \<lparr> timeEventNextId := 3,
       timeEventHead := [timer_at 2 2 500, cancelled_at 1 1 100, timer_at 0 3 0] \<rparr>"

text \<open>
  The table has one slot per descriptor below \<^verbatim>\<open>setsize\<close>: what \<^verbatim>\<open>eco_poll_create\<close>
  establishes and every function keeps.
\<close>

definition table_ok :: "co_poll \<Rightarrow> bool" where
  "table_ok p \<longleftrightarrow> length (events p) = nat (setsize p)"

text \<open>
  \<^verbatim>\<open>maxfd\<close> as an upper bound: no slot above it has interest. \<^verbatim>\<open>maxfd\<close> exact: it is moreover
  \<open>- 1\<close>, or the index of a slot that has interest.
\<close>

definition maxfd_bound :: "co_poll \<Rightarrow> bool" where
  "maxfd_bound p \<longleftrightarrow>
     (\<forall>i < length (events p). mask (events p ! i) \<noteq> ECO_POLL_NONE \<longrightarrow> int i \<le> maxfd p)"

definition maxfd_exact :: "co_poll \<Rightarrow> bool" where
  "maxfd_exact p \<longleftrightarrow>
     maxfd_bound p \<and>
     (maxfd p = - 1 \<or>
      (0 \<le> maxfd p \<and> nat (maxfd p) < length (events p)
       \<and> mask (events p ! nat (maxfd p)) \<noteq> ECO_POLL_NONE))"

text \<open>A registration that asks for at least one bit of interest.\<close>

fun registers_interest :: "action \<Rightarrow> bool" where
  "registers_interest (FileEventCreate fd m p cd r) \<longleftrightarrow> m \<noteq> ECO_POLL_NONE"
| "registers_interest (FileEventUpdate fd m p cd r) \<longleftrightarrow> m \<noteq> ECO_POLL_NONE"
| "registers_interest _ \<longleftrightarrow> True"

text \<open>Concrete loops, operations and an environment for the examples.\<close>

definition three_ops :: "action list" where
  "three_ops = [FileEventCreate 1 ECO_POLL_READABLE 5 0 0,
                FileEventUpdate 3 ECO_POLL_WRITABLE 6 8 0,
                FileEventDelete 3 ECO_POLL_WRITABLE]"

definition slot :: "int \<Rightarrow> proc \<Rightarrow> proc \<Rightarrow> coFileEvent" where
  "slot m r w = \<lparr> mask = m, rfileProc = r, wfileProc = w, clientData = 0 \<rparr>"

definition registered_r :: co_poll where
  "registered_r = fresh_loop \<lparr> maxfd := 2, events := [slot 0 0 0, slot 0 0 0, slot 1 5 0, slot 0 0 0] \<rparr>"

definition registered_rw :: co_poll where
  "registered_rw = fresh_loop \<lparr> maxfd := 2, events := [slot 0 0 0, slot 0 0 0, slot 3 5 6, slot 0 0 0] \<rparr>"

definition unregistered :: co_poll where
  "unregistered = fresh_loop \<lparr> events := [slot 0 0 0, slot 0 0 0, slot 0 5 0, slot 0 0 0] \<rparr>"

definition two_readers :: co_poll where
  "two_readers = fresh_loop \<lparr> maxfd := 1, events := [slot 1 5 0, slot 1 6 0, slot 0 0 0, slot 0 0 0] \<rparr>"

text \<open>
  An environment whose backend reports descriptors 0 and 1 readable and whose callbacks
  all unregister the readable interest of descriptor 1.
\<close>

definition cancelling_env :: env where
  "cancelling_env = \<lparr> time_now = (\<lambda>n. 0), aeGetTime = (\<lambda>n. (0, 0)),
       aeApiPoll = (\<lambda>n tvp. [(0, 1), (1, 1)]),
       callback = (\<lambda>n. ([FileEventDelete 1 ECO_POLL_READABLE], 0)) \<rparr>"

text \<open>
  Counting the invocations of a run: the timer callbacks among them, and what the
  backend reported in one call of \<^verbatim>\<open>eco_poll_process_events\<close> (nothing when it was not
  asked).
\<close>

fun is_time_call :: "call \<Rightarrow> bool" where
  "is_time_call (CallTimeProc pr i cd b) = True"
| "is_time_call _ = False"

fun is_file_call :: "call \<Rightarrow> bool" where
  "is_file_call (CallFileProc pr fd cd m) = True"
| "is_file_call _ = False"

definition time_calls :: "call list \<Rightarrow> nat" where
  "time_calls cs = length (filter is_time_call cs)"

definition fired_entries :: "env \<Rightarrow> int \<Rightarrow> int \<Rightarrow> run \<Rightarrow> (int \<times> int) list" where
  "fired_entries E flags timeout s =
     (if flags AND ECO_POLL_TIME_EVENTS = 0 \<and> flags AND ECO_POLL_FILE_EVENTS = 0 then []
      else if maxfd (loop s) \<noteq> - 1 \<or> (flags AND ECO_POLL_TIME_EVENTS \<noteq> 0 \<and> timeout \<noteq> 0)
      then
        let shortest = (if flags AND ECO_POLL_TIME_EVENTS \<noteq> 0 \<and> timeout \<noteq> 0
                        then aeSearchNearestTimer (loop s) else None);
            b = wait_budget E shortest timeout s
        in aeApiPoll E (tick (snd b)) (fst b)
      else [])"

text \<open>
  An environment whose backend reports descriptor 2 readable and writable and whose
  callbacks leave the loop alone and return \<^verbatim>\<open>ECO_POLL_NOMORE\<close>; a loop with two distinct
  callbacks on descriptor 2 and one timer.
\<close>

definition quiet_env :: env where
  "quiet_env = \<lparr> time_now = (\<lambda>n. 20), aeGetTime = (\<lambda>n. (20, 0)),
       aeApiPoll = (\<lambda>n tvp. [(2, ECO_POLL_READABLE OR ECO_POLL_WRITABLE)]),
       callback = (\<lambda>n. ([], ECO_POLL_NOMORE)) \<rparr>"

definition busy_loop :: co_poll where
  "busy_loop = registered_rw \<lparr> timeEventNextId := 1, timeEventHead := [timer_at 0 10 0] \<rparr>"

text \<open>The last \<open>n\<close> nodes of the timer list: those the sweep has still to visit.\<close>

definition rest :: "nat \<Rightarrow> 'a list \<Rightarrow> 'a list" where
  "rest n L = drop (length L - n) L"

text \<open>
  What the functions of the file can do to a node in place: the deadline may change and
  the id may be overwritten by the deletion sentinel; the callbacks, the user data and
  the identity stay.
\<close>

definition same_node :: "coTimeEvent \<Rightarrow> coTimeEvent \<Rightarrow> bool" where
  "same_node a b \<longleftrightarrow>
     born b = born a \<and> timeProc b = timeProc a \<and> finalizerProc b = finalizerProc a \<and>
     clientData_te b = clientData_te a \<and>
     (id_te b = id_te a \<or> id_te b = ECO_POLL_DELETED_EVENT_ID)"

text \<open>
  What one call of a function of the file, other than the sweep, does to the timers: new
  nodes with fresh ids in front, the old nodes changed in place, the counter not lower.
\<close>

definition evolves :: "co_poll \<Rightarrow> co_poll \<Rightarrow> bool" where
  "evolves p p' \<longleftrightarrow>
     timeEventNextId p \<le> timeEventNextId p' \<and>
     (\<exists>new M. timeEventHead p' = new @ M \<and> list_all2 same_node (timeEventHead p) M \<and>
        distinct (map born new) \<and>
        (\<forall>x\<in>set new. timeEventNextId p \<le> born x \<and> born x < timeEventNextId p' \<and>
            (id_te x = born x \<or> id_te x = ECO_POLL_DELETED_EVENT_ID)))"

text \<open>
  The timer list of a loop that was created by \<^verbatim>\<open>eco_poll_create\<close> and used through the
  functions of the file: every node carries the id it was created with or the deletion
  sentinel, the ids are below the counter, and no two nodes were created with the same id.
\<close>

definition timers_ok :: "co_poll \<Rightarrow> bool" where
  "timers_ok p \<longleftrightarrow>
     0 \<le> timeEventNextId p \<and> distinct (map born (timeEventHead p)) \<and>
     (\<forall>x\<in>set (timeEventHead p). 0 \<le> born x \<and> born x < timeEventNextId p \<and>
         (id_te x = born x \<or> id_te x = ECO_POLL_DELETED_EVENT_ID))"

text \<open>The timer created with id \<open>tid\<close> is no longer in the list, and the id will not be issued again.\<close>

definition gone :: "int \<Rightarrow> co_poll \<Rightarrow> bool" where
  "gone tid p \<longleftrightarrow> tid < timeEventNextId p \<and> tid \<notin> born ` set (timeEventHead p)"

text \<open>The node an invocation was made for.\<close>

fun call_born :: "call \<Rightarrow> int option" where
  "call_born (CallFileProc pr fd cd m) = None"
| "call_born (CallTimeProc pr i cd b) = Some b"
| "call_born (CallFinalizer pr cd b) = Some b"

text \<open>The cursor and \<^verbatim>\<open>prev\<close> of the sweep point into the list, \<^verbatim>\<open>prev\<close> before the cursor.\<close>

definition cursor_ok :: "nat \<Rightarrow> nat option \<Rightarrow> co_poll \<Rightarrow> bool" where
  "cursor_ok n pv p \<longleftrightarrow>
     timers_ok p \<and> n \<le> length (timeEventHead p) \<and>
     (\<forall>q. pv = Some q \<longrightarrow> n < q \<and> q \<le> length (timeEventHead p))"

text \<open>
  The timer created with id \<open>tid\<close>, with finalizer \<open>f\<close> and user data \<open>c\<close>, is marked deleted
  and among the last \<open>n\<close> nodes.
\<close>

definition pending :: "int \<Rightarrow> proc \<Rightarrow> cdata \<Rightarrow> nat \<Rightarrow> co_poll \<Rightarrow> bool" where
  "pending tid f c n p \<longleftrightarrow>
     (\<exists>te\<in>set (rest n (timeEventHead p)).
        born te = tid \<and> id_te te = ECO_POLL_DELETED_EVENT_ID \<and>
        finalizerProc te = f \<and> clientData_te te = c)"

text \<open>The fresh loop after creating one timer with finalizer 9 and user data 4.\<close>

definition armed :: co_poll where
  "armed = snd (eco_poll_time_event_create fresh_loop 1000 1 4 9 True (5, 0))"





text \<open>
  A run that loses a timer. Timers 0 (finalizer 9) and 1 (finalizer 8) were created and
  cancelled, so both nodes are marked deleted, timer 1 at the head. \<open>first_unlinked\<close> is the
  loop when the sweep has unlinked the head and calls its finalizer, \<open>after_leak\<close> the loop
  after the sweep. In \<open>leaking_env\<close> that finalizer (the callback invoked at tick 1) creates
  a timer with finalizer 6 and user data 7 and cancels it; in \<open>creating_env\<close> it only
  creates the timer.
\<close>

definition two_cancelled :: co_poll where
  "two_cancelled = fresh_loop \<lparr> timeEventNextId := 2,
       timeEventHead := [(cancelled_at 1 6 0)\<lparr>finalizerProc := 8\<rparr>,
                         (cancelled_at 0 6 0)\<lparr>finalizerProc := 9\<rparr>] \<rparr>"

definition first_unlinked :: co_poll where
  "first_unlinked = two_cancelled \<lparr> lastTime := 20,
       timeEventHead := [(cancelled_at 0 6 0)\<lparr>finalizerProc := 9\<rparr>] \<rparr>"

definition after_leak :: co_poll where
  "after_leak = two_cancelled \<lparr> timeEventNextId := 3, lastTime := 20, timeEventHead := [] \<rparr>"

definition leaking_env :: env where
  "leaking_env = \<lparr> time_now = (\<lambda>n. 20), aeGetTime = (\<lambda>n. (20, 0)),
       aeApiPoll = (\<lambda>n tvp. []),
       callback = (\<lambda>n. if n = 1
                          then ([TimeEventCreate 5 1 7 6 True (20, 0), TimeEventDelete 2], 0)
                          else ([], 0)) \<rparr>"

definition creating_env :: env where
  "creating_env = \<lparr> time_now = (\<lambda>n. 20), aeGetTime = (\<lambda>n. (20, 0)),
       aeApiPoll = (\<lambda>n tvp. []),
       callback = (\<lambda>n. if n = 1
                          then ([TimeEventCreate 5 1 7 6 True (20, 0)], 0)
                          else ([], 0)) \<rparr>"

section \<open>Properties\<close>

subsection \<open>The nearest timer\<close>

lemma nearest_from_None_iff: "nearest_from acc tes = None \<longleftrightarrow> acc = None \<and> tes = []"
  by (induction tes arbitrary: acc) (auto split: option.splits)

lemma deadline_le_refl: "deadline_le a a"
  by (simp add: deadline_le_def)

lemma deadline_le_trans: "deadline_le a b \<Longrightarrow> deadline_le b c \<Longrightarrow> deadline_le a c"
  by (auto simp: deadline_le_def)

text \<open>
  The loop invariant of the search: the candidate is the accumulator or a node seen, and
  no node seen, nor the accumulator, has an earlier deadline.
\<close>

lemma nearest_from_min:
  "nearest_from acc tes = Some n \<Longrightarrow>
     (acc = Some n \<or> n \<in> set tes) \<and> (\<forall>te\<in>set tes. deadline_le n te)
     \<and> (\<forall>a. acc = Some a \<longrightarrow> deadline_le n a)"
proof (induction tes arbitrary: acc)
  case Nil
  then show ?case by (simp add: deadline_le_refl)
next
  case (Cons te tes)
  let ?acc' = "(case acc of None \<Rightarrow> Some te
        | Some n \<Rightarrow>
            if when_sec te < when_sec n \<or> (when_sec te = when_sec n \<and> when_ms te < when_ms n)
            then Some te else Some n)"
  from Cons.prems have r: "nearest_from ?acc' tes = Some n" by simp
  note ih = Cons.IH [OF r]
  show ?case
  proof (cases acc)
    case None
    with ih show ?thesis by auto
  next
    case (Some a)
    show ?thesis
    proof (cases "when_sec te < when_sec a \<or> (when_sec te = when_sec a \<and> when_ms te < when_ms a)")
      case True
      with Some ih have 1: "n = te \<or> n \<in> set tes"
        and 2: "\<forall>x\<in>set tes. deadline_le n x" and 3: "deadline_le n te"
        by auto
      from True have "deadline_le te a" by (auto simp: deadline_le_def)
      with 3 have "deadline_le n a" by (rule deadline_le_trans)
      with 1 2 3 Some show ?thesis by auto
    next
      case False
      with Some ih have 1: "n = a \<or> n \<in> set tes"
        and 2: "\<forall>x\<in>set tes. deadline_le n x" and 3: "deadline_le n a"
        by auto
      from False have "deadline_le a te" by (auto simp: deadline_le_def)
      with 3 have "deadline_le n te" by (rule deadline_le_trans)
      with 1 2 3 Some show ?thesis by auto
    qed
  qed
qed

text \<open>
  C8. The nearest-timer search returns none exactly when the list is empty; otherwise it
  returns a node of the list whose (seconds, milliseconds) deadline is not later than
  that of any node of the list. The ids play no part: a node marked deleted is compared
  like any other.
\<close>

theorem nearest_timer_minimal:
  "(aeSearchNearestTimer poll = None \<longleftrightarrow> timeEventHead poll = []) \<and>
   (\<forall>n. aeSearchNearestTimer poll = Some n \<longrightarrow>
        n \<in> set (timeEventHead poll) \<and> (\<forall>te\<in>set (timeEventHead poll). deadline_le n te))"
  using nearest_from_min [of None "timeEventHead poll"]
  by (auto simp: aeSearchNearestTimer_def nearest_from_None_iff)

text \<open>
  Over the deadlines (2 s, 500 ms), (1 s, 100 ms), (3 s, 0 ms) the search returns the
  (1 s, 100 ms) timer, here a cancelled one.
\<close>

theorem nearest_timer_minimal_witness:
  "aeSearchNearestTimer three_timers = Some (cancelled_at 1 1 100) \<and>
   cancelled_at 1 1 100 \<in> set (timeEventHead three_timers) \<and>
   deadline_le (cancelled_at 1 1 100) (timer_at 2 2 500) \<and>
   deadline_le (cancelled_at 1 1 100) (timer_at 0 3 0)"
proof -
  have e: "aeSearchNearestTimer three_timers = Some (cancelled_at 1 1 100)"
    by (simp add: aeSearchNearestTimer_def three_timers_def timer_at_def cancelled_at_def)
  have s: "timeEventHead three_timers = [timer_at 2 2 500, cancelled_at 1 1 100, timer_at 0 3 0]"
    by (simp add: three_timers_def)
  from nearest_timer_minimal [of three_timers] e s show ?thesis by simp
qed

subsection \<open>Failure of the backend\<close>

text \<open>
  C5. When the backend's add (modify) call answers \<open>- 1\<close> for a descriptor \<open>fd \<ge> 0\<close>,
  \<^verbatim>\<open>eco_poll_file_event_create\<close> (\<^verbatim>\<open>eco_poll_file_event_update\<close>) returns failure and the loop,
  so the slot of \<open>fd\<close> with its mask, callbacks and user data and \<^verbatim>\<open>maxfd\<close>, is as before.
\<close>

theorem backend_failure_leaves_slot:
  assumes "0 \<le> fd" and "api_ret = - 1"
  shows "eco_poll_file_event_create poll fd m proc cd api_ret = Some (ES_FAILURE, poll) \<and>
         eco_poll_file_event_update poll fd m proc cd api_ret = Some (ES_FAILURE, poll)"
  using assms by (simp add: eco_poll_file_event_create_def eco_poll_file_event_update_def)

theorem backend_failure_leaves_slot_witness:
  "(0::int) \<le> 2 \<and>
   eco_poll_file_event_create fresh_loop 2 ECO_POLL_READABLE 7 9 (- 1) = Some (ES_FAILURE, fresh_loop) \<and>
   eco_poll_file_event_update fresh_loop 2 ECO_POLL_READABLE 7 9 (- 1) = Some (ES_FAILURE, fresh_loop)"
  using backend_failure_leaves_slot [of 2 "- 1" fresh_loop ECO_POLL_READABLE 7 9] by simp

subsection \<open>The id counter\<close>

text \<open>
  C10. Every call of \<^verbatim>\<open>eco_poll_time_event_create\<close> increments \<^verbatim>\<open>timeEventNextId\<close> by one.
  When the allocation fails the call returns failure and leaves the timer list as it
  was, the counter incremented all the same; when it succeeds it returns the counter's
  previous value.
\<close>

theorem time_event_create_consumes_id:
  "timeEventNextId (snd (eco_poll_time_event_create poll ms proc cd fin ok cur))
     = timeEventNextId poll + 1 \<and>
   (\<not> ok \<longrightarrow>
      fst (eco_poll_time_event_create poll ms proc cd fin ok cur) = Inl ES_FAILURE \<and>
      timeEventHead (snd (eco_poll_time_event_create poll ms proc cd fin ok cur))
        = timeEventHead poll) \<and>
   (ok \<longrightarrow> fst (eco_poll_time_event_create poll ms proc cd fin ok cur) = Inr (timeEventNextId poll))"
  by (simp add: eco_poll_time_event_create_def Let_def)

text \<open>
  A failed creation between two successful ones on a fresh loop: the ids returned are
  0 and 2.
\<close>

theorem time_event_create_consumes_id_witness:
  "fst (eco_poll_time_event_create fresh_loop 10 1 0 0 True (5, 0)) = Inr 0 \<and>
   fst (eco_poll_time_event_create
          (snd (eco_poll_time_event_create fresh_loop 10 1 0 0 True (5, 0)))
          10 1 0 0 False (5, 0)) = Inl ES_FAILURE \<and>
   fst (eco_poll_time_event_create
          (snd (eco_poll_time_event_create
                  (snd (eco_poll_time_event_create fresh_loop 10 1 0 0 True (5, 0)))
                  10 1 0 0 False (5, 0)))
          10 1 0 0 True (5, 0)) = Inr 2"
proof -
  let ?p1 = "snd (eco_poll_time_event_create fresh_loop 10 1 0 0 True (5, 0))"
  let ?p2 = "snd (eco_poll_time_event_create ?p1 10 1 0 0 False (5, 0))"
  have 0: "timeEventNextId fresh_loop = 0" by (simp add: fresh_loop_def)
  from time_event_create_consumes_id [of fresh_loop 10 1 0 0 True "(5, 0)"] 0
  have a: "fst (eco_poll_time_event_create fresh_loop 10 1 0 0 True (5, 0)) = Inr 0"
    and a': "timeEventNextId ?p1 = 1" by simp_all
  from time_event_create_consumes_id [of ?p1 10 1 0 0 False "(5, 0)"] a'
  have b: "fst (eco_poll_time_event_create ?p1 10 1 0 0 False (5, 0)) = Inl ES_FAILURE"
    and b': "timeEventNextId ?p2 = 2" by simp_all
  from time_event_create_consumes_id [of ?p2 10 1 0 0 True "(5, 0)"] b'
  have c: "fst (eco_poll_time_event_create ?p2 10 1 0 0 True (5, 0)) = Inr 2" by simp
  from a b c show ?thesis by simp
qed

subsection \<open>The descriptor table\<close>

lemmas consts_simps = ECO_POLL_NONE_def ECO_POLL_READABLE_def ECO_POLL_WRITABLE_def
  ECO_POLL_FILE_EVENTS_def ECO_POLL_TIME_EVENTS_def ECO_POLL_NOMORE_def
  ECO_POLL_DELETED_EVENT_ID_def

lemma update_eq_create: "eco_poll_file_event_update = eco_poll_file_event_create"
  by (intro ext) (simp add: eco_poll_file_event_update_def eco_poll_file_event_create_def)

lemma scan_maxfd_range: "- 1 \<le> scan_maxfd ev k \<and> scan_maxfd ev k < int k"
  by (induction k) auto

lemma scan_maxfd_hit:
  "scan_maxfd ev k \<noteq> - 1 \<Longrightarrow> mask (ev ! nat (scan_maxfd ev k)) \<noteq> ECO_POLL_NONE"
  by (induction k) (auto split: if_splits)

lemma scan_maxfd_above:
  "scan_maxfd ev k < int i \<Longrightarrow> i < k \<Longrightarrow> mask (ev ! i) = ECO_POLL_NONE"
proof (induction k)
  case 0
  then show ?case by simp
next
  case (Suc k)
  then show ?case by (cases "i = k") (auto split: if_splits simp: less_Suc_eq)
qed

lemma create_table_ok:
  "eco_poll_file_event_create p fd m pr cd r = Some (st, p') \<Longrightarrow> table_ok p \<Longrightarrow> table_ok p'"
  by (auto simp: eco_poll_file_event_create_def table_ok_def Let_def split: if_splits)

lemma delete_table_ok:
  "eco_poll_file_event_delete p fd m = Some p' \<Longrightarrow> table_ok p \<Longrightarrow> table_ok p'"
  by (auto simp: eco_poll_file_event_delete_def table_ok_def Let_def split: if_splits)

lemma create_maxfd_bound:
  assumes "eco_poll_file_event_create p fd m pr cd r = Some (st, p')" "table_ok p" "maxfd_bound p"
  shows "maxfd_bound p'"
  using assms
  by (auto simp: eco_poll_file_event_create_def table_ok_def maxfd_bound_def Let_def nth_list_update
      split: if_splits)

lemma create_maxfd_exact:
  assumes "eco_poll_file_event_create p fd m pr cd r = Some (st, p')" "table_ok p" "maxfd_exact p"
    "m \<noteq> ECO_POLL_NONE"
  shows "maxfd_exact p'"
proof -
  from assms(1,2,3) have b: "maxfd_bound p'"
    by (auto intro: create_maxfd_bound simp: maxfd_exact_def)
  show ?thesis
  proof (cases "st = ES_SUCCESS")
    case False
    with assms(1) have "p' = p"
      by (auto simp: eco_poll_file_event_create_def Let_def split: if_splits)
    with assms(3) show ?thesis by simp
  next
    case True
    with assms(1) have fd: "0 \<le> fd" "fd < setsize p"
      and p': "maxfd p' = (if fd > maxfd p then fd else maxfd p)"
      and ev: "events p' = (events p)[nat fd := (events p' ! nat fd)]"
      and mk: "mask (events p' ! nat fd) = mask (events p ! nat fd) OR m"
      using assms(2)
      by (auto simp: eco_poll_file_event_create_def Let_def table_ok_def split: if_splits)
    from fd assms(2) have len: "nat fd < length (events p)" by (auto simp: table_ok_def)
    from mk assms(4) have nz: "mask (events p' ! nat fd) \<noteq> ECO_POLL_NONE"
      by (simp add: ECO_POLL_NONE_def or_eq_0_iff)
    show ?thesis
    proof (cases "fd > maxfd p")
      case True
      with p' nz fd len ev b show ?thesis
        by (simp add: maxfd_exact_def) (metis length_list_update)
    next
      case False
      with p' have eq: "maxfd p' = maxfd p" by simp
      from False fd have "maxfd p \<noteq> - 1" by auto
      with assms(3) have m0: "0 \<le> maxfd p" "nat (maxfd p) < length (events p)"
        "mask (events p ! nat (maxfd p)) \<noteq> ECO_POLL_NONE"
        by (auto simp: maxfd_exact_def)
      have "mask (events p' ! nat (maxfd p)) \<noteq> ECO_POLL_NONE"
      proof (cases "nat (maxfd p) = nat fd")
        case True
        with nz show ?thesis by simp
      next
        case False
        with ev have "events p' ! nat (maxfd p) = events p ! nat (maxfd p)"
          by (metis nth_list_update_neq)
        with m0 show ?thesis by simp
      qed
      moreover from ev have "length (events p') = length (events p)"
        by (metis length_list_update)
      ultimately show ?thesis using b eq m0 by (simp add: maxfd_exact_def)
    qed
  qed
qed

lemma delete_cases:
  assumes "eco_poll_file_event_delete p fd m = Some p'" "table_ok p"
  shows "p' = p \<or>
    (0 \<le> fd \<and> nat fd < length (events p) \<and> mask (events p ! nat fd) \<noteq> ECO_POLL_NONE \<and>
     events p' = (events p)[nat fd := (events p ! nat fd)\<lparr>mask := mask (events p ! nat fd) AND NOT m\<rparr>] \<and>
     maxfd p' = (if fd = maxfd p \<and> mask (events p ! nat fd) AND NOT m = ECO_POLL_NONE
                 then scan_maxfd (events p') (nat (maxfd p)) else maxfd p))"
  using assms
  by (auto simp: eco_poll_file_event_delete_def table_ok_def Let_def split: if_splits)

lemma delete_maxfd_bound:
  assumes "eco_poll_file_event_delete p fd m = Some p'" "table_ok p" "maxfd_bound p"
  shows "maxfd_bound p'"
proof -
  from delete_cases [OF assms(1,2)] show ?thesis
  proof
    assume "p' = p" with assms(3) show ?thesis by simp
  next
    assume a: "0 \<le> fd \<and> nat fd < length (events p) \<and> mask (events p ! nat fd) \<noteq> ECO_POLL_NONE \<and>
     events p' = (events p)[nat fd := (events p ! nat fd)\<lparr>mask := mask (events p ! nat fd) AND NOT m\<rparr>] \<and>
     maxfd p' = (if fd = maxfd p \<and> mask (events p ! nat fd) AND NOT m = ECO_POLL_NONE
                 then scan_maxfd (events p') (nat (maxfd p)) else maxfd p)"
    then have ev: "events p' = (events p)[nat fd := (events p ! nat fd)\<lparr>mask := mask (events p ! nat fd) AND NOT m\<rparr>]"
      and fd: "0 \<le> fd" "nat fd < length (events p)" by auto
    have len: "length (events p') = length (events p)" by (simp add: ev)
    have old: "mask (events p ! i) \<noteq> ECO_POLL_NONE" if "i < length (events p)" "mask (events p' ! i) \<noteq> ECO_POLL_NONE" "i \<noteq> nat fd" for i
      using that by (simp add: ev)
    show ?thesis
    proof (cases "fd = maxfd p \<and> mask (events p ! nat fd) AND NOT m = ECO_POLL_NONE")
      case False
      with a have mx: "maxfd p' = maxfd p" by simp
      show ?thesis unfolding maxfd_bound_def
      proof (intro allI impI)
        fix i assume i: "i < length (events p')" "mask (events p' ! i) \<noteq> ECO_POLL_NONE"
        have "mask (events p ! i) \<noteq> ECO_POLL_NONE"
        proof (cases "i = nat fd")
          case True with fd a show ?thesis by simp
        next
          case False with i len old show ?thesis by simp
        qed
        with assms(3) i len mx show "int i \<le> maxfd p'" by (simp add: maxfd_bound_def)
      qed
    next
      case True
      moreover from a have "maxfd p' = (if fd = maxfd p \<and> mask (events p ! nat fd) AND NOT m = ECO_POLL_NONE
                 then scan_maxfd (events p') (nat (maxfd p)) else maxfd p)" by blast
      ultimately have mx: "maxfd p' = scan_maxfd (events p') (nat (maxfd p))" by metis
      from True ev fd have z: "mask (events p' ! nat fd) = ECO_POLL_NONE" by auto
      show ?thesis unfolding maxfd_bound_def
      proof (intro allI impI)
        fix i assume i: "i < length (events p')" "mask (events p' ! i) \<noteq> ECO_POLL_NONE"
        with z have ne: "i \<noteq> nat fd" by auto
        with i len old have "mask (events p ! i) \<noteq> ECO_POLL_NONE" by simp
        with assms(3) i len have "int i \<le> maxfd p" by (simp add: maxfd_bound_def)
        with ne True fd have lt: "i < nat (maxfd p)" by auto
        show "int i \<le> maxfd p'"
        proof (rule ccontr)
          assume "\<not> int i \<le> maxfd p'"
          with mx have "scan_maxfd (events p') (nat (maxfd p)) < int i" by simp
          from scan_maxfd_above [OF this lt] i show False by simp
        qed
      qed
    qed
  qed
qed

lemma delete_maxfd_exact:
  assumes "eco_poll_file_event_delete p fd m = Some p'" "table_ok p" "maxfd_exact p"
  shows "maxfd_exact p'"
proof -
  from assms have b: "maxfd_bound p'" by (auto intro: delete_maxfd_bound simp: maxfd_exact_def)
  from delete_cases [OF assms(1,2)] show ?thesis
  proof
    assume "p' = p" with assms(3) show ?thesis by simp
  next
    assume a: "0 \<le> fd \<and> nat fd < length (events p) \<and> mask (events p ! nat fd) \<noteq> ECO_POLL_NONE \<and>
     events p' = (events p)[nat fd := (events p ! nat fd)\<lparr>mask := mask (events p ! nat fd) AND NOT m\<rparr>] \<and>
     maxfd p' = (if fd = maxfd p \<and> mask (events p ! nat fd) AND NOT m = ECO_POLL_NONE
                 then scan_maxfd (events p') (nat (maxfd p)) else maxfd p)"
    then have ev: "events p' = (events p)[nat fd := (events p ! nat fd)\<lparr>mask := mask (events p ! nat fd) AND NOT m\<rparr>]"
      and fd: "0 \<le> fd" "nat fd < length (events p)"
      and nz: "mask (events p ! nat fd) \<noteq> ECO_POLL_NONE" by auto
    have len: "length (events p') = length (events p)" by (simp add: ev)
    from nz fd assms(3) have fdle: "fd \<le> maxfd p" by (auto simp: maxfd_exact_def maxfd_bound_def)
    with fd assms(3) have m0: "0 \<le> maxfd p" "nat (maxfd p) < length (events p)"
        "mask (events p ! nat (maxfd p)) \<noteq> ECO_POLL_NONE"
      by (auto simp: maxfd_exact_def)
    show ?thesis
    proof (cases "fd = maxfd p \<and> mask (events p ! nat fd) AND NOT m = ECO_POLL_NONE")
      case True
      moreover from a have "maxfd p' = (if fd = maxfd p \<and> mask (events p ! nat fd) AND NOT m = ECO_POLL_NONE
                 then scan_maxfd (events p') (nat (maxfd p)) else maxfd p)" by blast
      ultimately have mx: "maxfd p' = scan_maxfd (events p') (nat (maxfd p))" by metis
      have r: "- 1 \<le> maxfd p' \<and> maxfd p' < int (nat (maxfd p))"
        unfolding mx by (rule scan_maxfd_range)
      have "maxfd p' \<noteq> - 1 \<Longrightarrow> mask (events p' ! nat (maxfd p')) \<noteq> ECO_POLL_NONE"
        unfolding mx by (rule scan_maxfd_hit)
      with r m0 len b show ?thesis by (auto simp: maxfd_exact_def)
    next
      case False
      with a have mx: "maxfd p' = maxfd p" by simp
      have "mask (events p' ! nat (maxfd p)) \<noteq> ECO_POLL_NONE"
      proof (cases "fd = maxfd p")
        case True
        with False fd ev show ?thesis by simp
      next
        case False
        with fd m0 have "nat (maxfd p) \<noteq> nat fd" by auto
        with ev m0 show ?thesis by simp
      qed
      with mx m0 len b show ?thesis by (simp add: maxfd_exact_def)
    qed
  qed
qed

lemma timer_actions_keep_table:
  "events (snd (eco_poll_time_event_create p ms pr cd fin ok cur)) = events p"
  "maxfd (snd (eco_poll_time_event_create p ms pr cd fin ok cur)) = maxfd p"
  "setsize (snd (eco_poll_time_event_create p ms pr cd fin ok cur)) = setsize p"
  "events (snd (eco_poll_time_event_delete p i)) = events p"
  "maxfd (snd (eco_poll_time_event_delete p i)) = maxfd p"
  "setsize (snd (eco_poll_time_event_delete p i)) = setsize p"
  "events (snd (eco_poll_time_fire_all p cur)) = events p"
  "maxfd (snd (eco_poll_time_fire_all p cur)) = maxfd p"
  "setsize (snd (eco_poll_time_fire_all p cur)) = setsize p"
  by (simp_all add: eco_poll_time_event_create_def eco_poll_time_event_delete_def
      eco_poll_time_fire_all_def Let_def split: option.splits)

lemma apply_action_table_ok:
  "apply_action a p = Some p' \<Longrightarrow> table_ok p \<Longrightarrow> table_ok p'"
  by (cases a)
    (auto simp: update_eq_create timer_actions_keep_table table_ok_def
      dest: create_table_ok delete_table_ok)

lemma apply_action_maxfd_bound:
  "apply_action a p = Some p' \<Longrightarrow> table_ok p \<Longrightarrow> maxfd_bound p \<Longrightarrow> maxfd_bound p'"
  by (cases a)
    (auto simp: update_eq_create timer_actions_keep_table maxfd_bound_def [of "snd _"]
      maxfd_bound_def [of p]
      dest: create_maxfd_bound delete_maxfd_bound)

lemma apply_action_maxfd_exact:
  "apply_action a p = Some p' \<Longrightarrow> table_ok p \<Longrightarrow> registers_interest a \<Longrightarrow> maxfd_exact p
     \<Longrightarrow> maxfd_exact p'"
  by (cases a)
    (auto simp: update_eq_create timer_actions_keep_table maxfd_bound_def [of "snd _"]
      maxfd_bound_def [of p] maxfd_exact_def [of "snd _"] maxfd_exact_def [of p]
      dest: create_maxfd_exact delete_maxfd_exact)

lemma apply_actions_table_ok:
  "apply_actions acts p = Some p' \<Longrightarrow> table_ok p \<Longrightarrow> table_ok p'"
  by (induction acts arbitrary: p) (auto split: option.splits dest: apply_action_table_ok)

lemma apply_actions_maxfd_bound:
  "apply_actions acts p = Some p' \<Longrightarrow> table_ok p \<Longrightarrow> maxfd_bound p \<Longrightarrow> maxfd_bound p'"
proof (induction acts arbitrary: p)
  case Nil
  then show ?case by simp
next
  case (Cons a acts)
  from Cons.prems(1) obtain p1 where 1: "apply_action a p = Some p1"
    and 2: "apply_actions acts p1 = Some p'" by (auto split: option.splits)
  from 1 Cons.prems have "table_ok p1" "maxfd_bound p1"
    by (auto dest: apply_action_table_ok apply_action_maxfd_bound)
  with 2 show ?case by (rule Cons.IH)
qed

lemma apply_actions_maxfd_exact:
  "apply_actions acts p = Some p' \<Longrightarrow> table_ok p \<Longrightarrow> list_all registers_interest acts
     \<Longrightarrow> maxfd_exact p \<Longrightarrow> maxfd_exact p'"
proof (induction acts arbitrary: p)
  case Nil
  then show ?case by simp
next
  case (Cons a acts)
  from Cons.prems(1) obtain p1 where 1: "apply_action a p = Some p1"
    and 2: "apply_actions acts p1 = Some p'" by (auto split: option.splits)
  from 1 Cons.prems have "table_ok p1" "maxfd_exact p1"
    by (auto dest: apply_action_table_ok apply_action_maxfd_exact)
  with 2 Cons.prems(3) show ?case by (auto intro: Cons.IH)
qed

lemma eco_poll_create_inv:
  assumes "eco_poll_create sz mok aok now g = Some p0"
  shows "table_ok p0" "maxfd_exact p0"
  using assms
  by (auto simp: eco_poll_create_def table_ok_def maxfd_exact_def maxfd_bound_def
      split: if_splits)

lemma list_all_take: "list_all P xs \<Longrightarrow> list_all P (take n xs)"
  by (auto simp: list_all_iff dest: in_set_takeD)

lemma create_fresh_loop:
  "eco_poll_create 4 True True 0 (\<lambda>i. \<lparr> mask = 7, rfileProc = 0, wfileProc = 0, clientData = 0 \<rparr>)
     = Some fresh_loop"
  by (simp add: eco_poll_create_def fresh_loop_def ECO_POLL_NONE_def numeral_eq_Suc upt_rec)

lemma fresh_loop_table_ok: "table_ok fresh_loop"
  by (simp add: table_ok_def fresh_loop_def)

text \<open>
  C1, as the code has it. After any number of operations on a freshly created loop no
  slot above \<^verbatim>\<open>maxfd\<close> has a mask other than \<^verbatim>\<open>ECO_POLL_NONE\<close>; and when every register and
  update call of the sequence asks for a mask other than \<^verbatim>\<open>ECO_POLL_NONE\<close>, \<^verbatim>\<open>maxfd\<close> is the
  largest index whose mask is not \<^verbatim>\<open>ECO_POLL_NONE\<close>, or \<open>- 1\<close> when there is none. (The
  operations are those that return: a negative descriptor is outside the table.)
\<close>

theorem maxfd_tracks:
  assumes "eco_poll_create sz malloc_ok api_ok now g = Some p0"
    and "apply_actions (take n acts) p0 = Some p"
  shows "maxfd_bound p \<and> (list_all registers_interest acts \<longrightarrow> maxfd_exact p)"
proof -
  note i = eco_poll_create_inv [OF assms(1)]
  from i have "maxfd_bound p0" by (simp add: maxfd_exact_def)
  with assms(2) i(1) have "maxfd_bound p" by (auto intro: apply_actions_maxfd_bound)
  moreover have "maxfd_exact p" if "list_all registers_interest acts"
    using assms(2) i(1) list_all_take [OF that] i(2) by (rule apply_actions_maxfd_exact)
  ultimately show ?thesis by simp
qed

theorem maxfd_tracks_witness:
  "map_option maxfd (apply_actions (take 3 three_ops) fresh_loop) = Some 1 \<and>
   map_option maxfd_bound (apply_actions (take 3 three_ops) fresh_loop) = Some True \<and>
   map_option maxfd_exact (apply_actions (take 3 three_ops) fresh_loop) = Some True"
proof -
  obtain q where e: "apply_actions (take 3 three_ops) fresh_loop = Some q" and m: "maxfd q = 1"
    by (simp add: three_ops_def fresh_loop_def eco_poll_file_event_create_def
        eco_poll_file_event_update_def eco_poll_file_event_delete_def consts_simps
        numeral_eq_Suc Let_def)
  have r: "list_all registers_interest three_ops"
    by (simp add: three_ops_def consts_simps)
  from maxfd_tracks [OF create_fresh_loop e] r m e show ?thesis by simp
qed

text \<open>
  C1 as stated fails: registering descriptor 3 with the mask \<^verbatim>\<open>ECO_POLL_NONE\<close> on the fresh
  loop raises \<^verbatim>\<open>maxfd\<close> to 3 while every slot still has the mask \<^verbatim>\<open>ECO_POLL_NONE\<close>.
\<close>

theorem maxfd_exact_counterexample:
  "apply_actions [FileEventCreate 3 ECO_POLL_NONE 5 0 0] fresh_loop = Some (fresh_loop\<lparr>maxfd := 3\<rparr>) \<and>
   maxfd (fresh_loop\<lparr>maxfd := 3\<rparr>) = 3 \<and>
   map mask (events (fresh_loop\<lparr>maxfd := 3\<rparr>))
     = [ECO_POLL_NONE, ECO_POLL_NONE, ECO_POLL_NONE, ECO_POLL_NONE] \<and>
   \<not> maxfd_exact (fresh_loop\<lparr>maxfd := 3\<rparr>)"
  by (simp add: eco_poll_file_event_create_def fresh_loop_def ECO_POLL_NONE_def
      ECO_POLL_READABLE_def ECO_POLL_WRITABLE_def maxfd_exact_def numeral_eq_Suc)

text \<open>
  C9. Registering \<open>R1\<close> and then \<open>R2\<close> on a descriptor within capacity, through either
  entry point and both calls succeeding, leaves the slot's mask at its previous value
  with \<open>R1\<close> and \<open>R2\<close> or-ed in: \<open>R1 OR R2\<close> for a slot that had no interest, not \<open>R2\<close> alone.
\<close>

theorem register_accumulates:
  assumes "table_ok poll" and "0 \<le> fd" and "fd < setsize poll"
    and "reg1 = eco_poll_file_event_create \<or> reg1 = eco_poll_file_event_update"
    and "reg2 = eco_poll_file_event_create \<or> reg2 = eco_poll_file_event_update"
    and "reg1 poll fd R1 pr1 cd1 r1 = Some (ES_SUCCESS, poll1)"
    and "reg2 poll1 fd R2 pr2 cd2 r2 = Some (ES_SUCCESS, poll2)"
  shows "mask (events poll2 ! nat fd) = mask (events poll ! nat fd) OR R1 OR R2 \<and>
         (mask (events poll ! nat fd) = ECO_POLL_NONE \<longrightarrow> mask (events poll2 ! nat fd) = R1 OR R2)"
proof -
  from assms(4,6) have 1: "eco_poll_file_event_create poll fd R1 pr1 cd1 r1 = Some (ES_SUCCESS, poll1)"
    by (auto simp: update_eq_create)
  from assms(5,7) have 2: "eco_poll_file_event_create poll1 fd R2 pr2 cd2 r2 = Some (ES_SUCCESS, poll2)"
    by (auto simp: update_eq_create)
  from assms(1,2,3) have len: "nat fd < length (events poll)" by (simp add: table_ok_def)
  from 1 len have m1: "mask (events poll1 ! nat fd) = mask (events poll ! nat fd) OR R1"
    and len1: "nat fd < length (events poll1)"
    by (auto simp: eco_poll_file_event_create_def Let_def split: if_splits)
  from 2 len1 have m2: "mask (events poll2 ! nat fd) = mask (events poll1 ! nat fd) OR R2"
    by (auto simp: eco_poll_file_event_create_def Let_def split: if_splits)
  from m1 m2 show ?thesis by (simp add: ECO_POLL_NONE_def or.assoc)
qed

theorem register_accumulates_witness:
  "eco_poll_file_event_create fresh_loop 2 ECO_POLL_READABLE 5 0 0 = Some (ES_SUCCESS, registered_r) \<and>
   eco_poll_file_event_update registered_r 2 ECO_POLL_WRITABLE 6 0 0 = Some (ES_SUCCESS, registered_rw) \<and>
   mask (events registered_rw ! 2) = ECO_POLL_READABLE OR ECO_POLL_WRITABLE"
proof -
  have 1: "eco_poll_file_event_create fresh_loop 2 ECO_POLL_READABLE 5 0 0 = Some (ES_SUCCESS, registered_r)"
    by (simp add: fresh_loop_def registered_r_def slot_def eco_poll_file_event_create_def
        consts_simps numeral_eq_Suc Let_def)
  have 2: "eco_poll_file_event_update registered_r 2 ECO_POLL_WRITABLE 6 0 0 = Some (ES_SUCCESS, registered_rw)"
    by (simp add: fresh_loop_def registered_r_def registered_rw_def slot_def
        eco_poll_file_event_update_def consts_simps numeral_eq_Suc Let_def)
  have 3: "mask (events fresh_loop ! nat 2) = ECO_POLL_NONE"
    by (simp add: fresh_loop_def consts_simps)
  have 4: "(0::int) \<le> 2" "2 < setsize fresh_loop" by (simp_all add: fresh_loop_def)
  from register_accumulates [where ?reg1.0 = eco_poll_file_event_create
      and ?reg2.0 = eco_poll_file_event_update, OF fresh_loop_table_ok 4 _ _ 1 2] 3
  have "mask (events registered_rw ! nat 2) = ECO_POLL_READABLE OR ECO_POLL_WRITABLE" by simp
  with 1 2 show ?thesis by simp
qed

subsection \<open>Slots without interest\<close>

lemma delete_keeps_callbacks:
  assumes "eco_poll_file_event_delete poll fd m = Some poll'" and "table_ok poll"
  shows "length (events poll') = length (events poll) \<and>
         rfileProc (events poll' ! i) = rfileProc (events poll ! i) \<and>
         wfileProc (events poll' ! i) = wfileProc (events poll ! i) \<and>
         clientData (events poll' ! i) = clientData (events poll ! i)"
  using delete_cases [OF assms]
  by (cases "i = nat fd") auto

text \<open>
  C6 as stated fails: after registering a readable callback on descriptor 2 of the fresh
  loop and unregistering it, the mask is \<^verbatim>\<open>ECO_POLL_NONE\<close> and \<^verbatim>\<open>rfileProc\<close> still holds the
  callback.
\<close>

theorem none_slot_counterexample:
  "apply_actions [FileEventCreate 2 ECO_POLL_READABLE 5 0 0, FileEventDelete 2 ECO_POLL_READABLE]
     fresh_loop = Some unregistered \<and>
   mask (events unregistered ! 2) = ECO_POLL_NONE \<and>
   rfileProc (events unregistered ! 2) = 5"
  by (simp add: fresh_loop_def unregistered_def slot_def eco_poll_file_event_create_def
      eco_poll_file_event_delete_def consts_simps numeral_eq_Suc Let_def)

text \<open>
  C6, as the code has it. Unregistering clears bits of the mask and nothing else: both
  callback references and the user data of the slot stay as they were, also when the
  mask becomes \<^verbatim>\<open>ECO_POLL_NONE\<close>. What a slot without interest does guarantee is that the
  dispatch of a fired entry for it invokes no callback and changes nothing.
\<close>

theorem none_slot_keeps_callbacks_unfired:
  assumes "table_ok (loop s)" and "0 \<le> fd" and "fd < setsize (loop s)"
  shows "(\<forall>m poll'. eco_poll_file_event_delete (loop s) fd m = Some poll' \<longrightarrow>
            rfileProc (events poll' ! nat fd) = rfileProc (events (loop s) ! nat fd) \<and>
            wfileProc (events poll' ! nat fd) = wfileProc (events (loop s) ! nat fd) \<and>
            clientData (events poll' ! nat fd) = clientData (events (loop s) ! nat fd)) \<and>
         (mask (events (loop s) ! nat fd) = ECO_POLL_NONE \<longrightarrow>
            dispatch_entry E (fd, ready) s = Some s)"
proof (intro conjI allI impI)
  fix m poll' assume d: "eco_poll_file_event_delete (loop s) fd m = Some poll'"
  from delete_keeps_callbacks [OF d assms(1), of "nat fd"]
  show "rfileProc (events poll' ! nat fd) = rfileProc (events (loop s) ! nat fd)"
    "wfileProc (events poll' ! nat fd) = wfileProc (events (loop s) ! nat fd)"
    "clientData (events poll' ! nat fd) = clientData (events (loop s) ! nat fd)"
    by simp_all
next
  assume "mask (events (loop s) ! nat fd) = ECO_POLL_NONE"
  with assms(2,3) show "dispatch_entry E (fd, ready) s = Some s"
    by (simp add: dispatch_entry_def Let_def ECO_POLL_NONE_def)
qed

theorem none_slot_keeps_callbacks_unfired_witness:
  "eco_poll_file_event_delete registered_r 2 ECO_POLL_READABLE = Some unregistered \<and>
   mask (events unregistered ! 2) = ECO_POLL_NONE \<and>
   rfileProc (events unregistered ! 2) = 5 \<and>
   dispatch_entry cancelling_env (2, ECO_POLL_READABLE) \<lparr> loop = unregistered, tick = 0, calls = [] \<rparr>
     = Some \<lparr> loop = unregistered, tick = 0, calls = [] \<rparr>"
proof -
  let ?s = "\<lparr> loop = registered_r, tick = 0, calls = [] \<rparr>"
  let ?u = "\<lparr> loop = unregistered, tick = 0, calls = [] \<rparr>"
  have d: "eco_poll_file_event_delete (loop ?s) 2 ECO_POLL_READABLE = Some unregistered"
    by (simp add: fresh_loop_def registered_r_def unregistered_def slot_def
        eco_poll_file_event_delete_def consts_simps numeral_eq_Suc Let_def)
  have t: "table_ok (loop ?s)" "(0::int) \<le> 2" "2 < setsize (loop ?s)"
    "table_ok (loop ?u)" "2 < setsize (loop ?u)"
    by (simp_all add: table_ok_def registered_r_def unregistered_def fresh_loop_def)
  have r0: "rfileProc (events (loop ?s) ! nat 2) = 5"
    by (simp add: registered_r_def fresh_loop_def slot_def numeral_eq_Suc)
  have m0: "mask (events (loop ?u) ! nat 2) = ECO_POLL_NONE"
    by (simp add: unregistered_def fresh_loop_def slot_def numeral_eq_Suc consts_simps)
  from none_slot_keeps_callbacks_unfired [OF t(1,2,3), of cancelling_env ECO_POLL_READABLE] d r0
  have a: "rfileProc (events unregistered ! nat 2) = 5" by simp
  from none_slot_keeps_callbacks_unfired [OF t(4,2,5), of cancelling_env ECO_POLL_READABLE] m0
  have b: "dispatch_entry cancelling_env (2, ECO_POLL_READABLE) ?u = Some ?u" by simp
  from a b d m0 show ?thesis by simp
qed

subsection \<open>Revalidation during dispatch\<close>

lemma dispatch_entry_stale:
  assumes "0 \<le> fd" and "fd < setsize (loop s)"
    and "mask (events (loop s) ! nat fd) AND m AND ECO_POLL_READABLE = 0"
    and "mask (events (loop s) ! nat fd) AND m AND ECO_POLL_WRITABLE = 0"
  shows "dispatch_entry E (fd, m) s = Some s"
  using assms by (simp add: dispatch_entry_def Let_def)

lemma dispatch_fired_append:
  "dispatch_fired E (xs @ ys) n s =
     (case dispatch_fired E xs n s of None \<Rightarrow> None | Some (n1, s1) \<Rightarrow> dispatch_fired E ys n1 s1)"
  by (induction xs arbitrary: n s) (auto split: option.splits)

text \<open>
  C3. Each fired entry is checked against the mask the slot has when the entry is
  reached: if, after the entries dispatched earlier in the pass (whose callbacks may
  have unregistered interest), the slot's mask has neither the readable nor the writable
  bit in common with the reported ready mask, the entry invokes no callback; the pass
  only counts it.
\<close>

theorem dispatch_revalidates:
  assumes "dispatch_fired E pre n s = Some (n1, s1)"
    and "0 \<le> fd" and "fd < setsize (loop s1)"
    and "mask (events (loop s1) ! nat fd) AND m AND ECO_POLL_READABLE = 0"
    and "mask (events (loop s1) ! nat fd) AND m AND ECO_POLL_WRITABLE = 0"
  shows "dispatch_fired E (pre @ [(fd, m)]) n s = Some (n1 + 1, s1)"
  using assms by (simp add: dispatch_fired_append dispatch_entry_stale)

text \<open>
  The backend reports descriptors 0 and 1 readable; the callback of descriptor 0
  unregisters descriptor 1, whose callback (6, still in the slot) is not invoked.
\<close>

theorem dispatch_revalidates_witness:
  "map_option (\<lambda>r. (fst r, calls (snd r), mask (events (loop (snd r)) ! 1), rfileProc (events (loop (snd r)) ! 1)))
     (dispatch_fired cancelling_env ([(0, ECO_POLL_READABLE)] @ [(1, ECO_POLL_READABLE)]) 0
        \<lparr> loop = two_readers, tick = 0, calls = [] \<rparr>)
   = Some (2, [CallFileProc 5 0 0 ECO_POLL_READABLE], ECO_POLL_NONE, 6)"
proof -
  let ?s = "\<lparr> loop = two_readers, tick = 0, calls = [] \<rparr>"
  let ?p1 = "fresh_loop \<lparr> maxfd := 0, events := [slot 1 5 0, slot 0 6 0, slot 0 0 0, slot 0 0 0] \<rparr>"
  let ?s1 = "\<lparr> loop = ?p1, tick = 1, calls = [CallFileProc 5 0 0 ECO_POLL_READABLE] \<rparr>"
  have 1: "dispatch_fired cancelling_env [(0, ECO_POLL_READABLE)] 0 ?s = Some (1, ?s1)"
    by (simp add: dispatch_entry_def invoke_def cancelling_env_def two_readers_def fresh_loop_def
        slot_def eco_poll_file_event_delete_def consts_simps numeral_eq_Suc Let_def)
  have 2: "(0::int) \<le> 1" "1 < setsize (loop ?s1)"
    "mask (events (loop ?s1) ! nat 1) AND ECO_POLL_READABLE AND ECO_POLL_READABLE = 0"
    "mask (events (loop ?s1) ! nat 1) AND ECO_POLL_READABLE AND ECO_POLL_WRITABLE = 0"
    by (simp_all add: fresh_loop_def slot_def consts_simps)
  from dispatch_revalidates [OF 1 2] show ?thesis
    by (simp add: slot_def consts_simps)
qed

subsection \<open>What one iteration counts\<close>

lemma invoke_calls: "invoke E c s = Some (r, s') \<Longrightarrow> calls s' = calls s @ [c]"
  by (auto simp: invoke_def Let_def split: option.splits)

lemma sweep_step_calls:
  assumes "sweep_step E maxId n pv processed s = Some (pv', processed', s')"
  shows "\<exists>new. calls s' = calls s @ new \<and> processed' = processed + int (time_calls new)
               \<and> list_all (\<lambda>c. \<not> is_file_call c) new"
proof -
  let ?L = "timeEventHead (loop s)"
  let ?te = "?L ! (length ?L - n)"
  from assms have n: "n \<noteq> 0" "\<not> length ?L < n"
    by (auto simp: sweep_step_def due_def unlinked_def Let_def split: if_splits)
  show ?thesis
  proof (cases "id_te ?te = ECO_POLL_DELETED_EVENT_ID")
    case True
    show ?thesis
    proof (cases "finalizerProc ?te = 0")
      case True
      with \<open>id_te ?te = ECO_POLL_DELETED_EVENT_ID\<close> assms n have "calls s' = calls s" "processed' = processed"
        by (auto simp: sweep_step_def due_def unlinked_def Let_def)
      then show ?thesis by (simp add: time_calls_def)
    next
      case False
      with True assms n obtain r s1 where
        "invoke E (CallFinalizer (finalizerProc ?te) (clientData_te ?te) (born ?te)) s1 = Some (r, s')"
        "calls s1 = calls s" "processed' = processed"
        by (auto simp: sweep_step_def due_def unlinked_def Let_def)
      then show ?thesis by (auto simp: time_calls_def dest!: invoke_calls)
    qed
  next
    case False
    note live = this
    show ?thesis
    proof (cases "id_te ?te > maxId")
      case True
      with live assms n have "calls s' = calls s" "processed' = processed"
        by (auto simp: sweep_step_def due_def unlinked_def Let_def)
      then show ?thesis by (simp add: time_calls_def)
    next
      case False
      note old = this
      let ?now = "aeGetTime E (tick s)"
      show ?thesis
      proof (cases "fst ?now > when_sec ?te \<or> (fst ?now = when_sec ?te \<and> snd ?now \<ge> when_ms ?te)")
        case False
        with live old assms n have "calls s' = calls s" "processed' = processed"
          by (auto simp: sweep_step_def due_def unlinked_def Let_def)
        then show ?thesis by (simp add: time_calls_def)
      next
        case True
        with live old assms n obtain r s2 where
          i: "invoke E (CallTimeProc (timeProc ?te) (id_te ?te) (clientData_te ?te) (born ?te))
               (s\<lparr>tick := tick s + 1\<rparr>) = Some (r, s2)"
          and c: "calls s' = calls s2" and p: "processed' = processed + 1"
          by (auto simp: sweep_step_def due_def unlinked_def Let_def split: if_splits option.splits)
        from invoke_calls [OF i] c p show ?thesis by (simp add: time_calls_def)
      qed
    qed
  qed
qed

lemma sweep_calls:
  "sweep E maxId n pv processed s = Some (processed', s') \<Longrightarrow>
     \<exists>new. calls s' = calls s @ new \<and> processed' = processed + int (time_calls new)
           \<and> list_all (\<lambda>c. \<not> is_file_call c) new"
proof (induction n arbitrary: pv processed s)
  case 0
  then show ?case by (simp add: time_calls_def)
next
  case (Suc m)
  from Suc.prems obtain pv1 pr1 s1 where st: "sweep_step E maxId (Suc m) pv processed s = Some (pv1, pr1, s1)"
    and r: "sweep E maxId m pv1 pr1 s1 = Some (processed', s')"
    by (auto split: option.splits)
  from sweep_step_calls [OF st] obtain new1 where 1: "calls s1 = calls s @ new1"
    "pr1 = processed + int (time_calls new1)" "list_all (\<lambda>c. \<not> is_file_call c) new1" by blast
  from Suc.IH [OF r] obtain new2 where 2: "calls s' = calls s1 @ new2"
    "processed' = pr1 + int (time_calls new2)" "list_all (\<lambda>c. \<not> is_file_call c) new2" by blast
  from 1 2 have "calls s' = calls s @ (new1 @ new2) \<and> processed' = processed + int (time_calls (new1 @ new2))
     \<and> list_all (\<lambda>c. \<not> is_file_call c) (new1 @ new2)"
    by (simp add: time_calls_def)
  then show ?case by blast
qed

lemma processTimeEvents_calls:
  "processTimeEvents E s = Some (n, s') \<Longrightarrow>
     \<exists>new. calls s' = calls s @ new \<and> n = int (time_calls new) \<and> list_all (\<lambda>c. \<not> is_file_call c) new"
  unfolding processTimeEvents_def Let_def
  by (drule sweep_calls) simp

lemma dispatch_entry_calls:
  assumes "dispatch_entry E e s = Some s'"
  shows "\<exists>new. calls s' = calls s @ new \<and> list_all is_file_call new"
proof -
  obtain fd m where e: "e = (fd, m)" by (cases e)
  let ?fe = "events (loop s) ! nat fd"
  let ?r = "mask ?fe AND m AND ECO_POLL_READABLE \<noteq> 0"
  from assms e obtain s1 where
    1: "(if ?r \<and> rfileProc ?fe \<noteq> 0
         then map_option snd (invoke E (CallFileProc (rfileProc ?fe) fd (clientData ?fe) m) s)
         else Some s) = Some s1"
    and 2: "(let fe = events (loop s1) ! nat fd in
               if mask fe AND m AND ECO_POLL_WRITABLE \<noteq> 0
                  \<and> wfileProc fe \<noteq> 0 \<and> (\<not> ?r \<or> wfileProc fe \<noteq> rfileProc fe)
               then map_option snd (invoke E (CallFileProc (wfileProc fe) fd (clientData fe) m) s1)
               else Some s1) = Some s'"
    by (auto simp: dispatch_entry_def Let_def split: if_splits option.splits)
  from 1 obtain new1 where n1: "calls s1 = calls s @ new1" "list_all is_file_call new1"
    by (auto split: if_splits dest!: invoke_calls)
  from 2 obtain new2 where n2: "calls s' = calls s1 @ new2" "list_all is_file_call new2"
    by (auto simp: Let_def split: if_splits dest!: invoke_calls)
  from n1 n2 have "calls s' = calls s @ (new1 @ new2) \<and> list_all is_file_call (new1 @ new2)" by simp
  then show ?thesis by blast
qed

lemma dispatch_fired_calls:
  "dispatch_fired E es n s = Some (n', s') \<Longrightarrow>
     n' = n + int (length es) \<and> (\<exists>new. calls s' = calls s @ new \<and> list_all is_file_call new)"
proof (induction es arbitrary: n s)
  case Nil
  then show ?case by simp
next
  case (Cons e es)
  from Cons.prems obtain s1 where d: "dispatch_entry E e s = Some s1"
    and r: "dispatch_fired E es (n + 1) s1 = Some (n', s')" by (auto split: option.splits)
  from dispatch_entry_calls [OF d] obtain new1 where 1: "calls s1 = calls s @ new1" "list_all is_file_call new1"
    by blast
  from Cons.IH [OF r] obtain new2 where 2: "n' = n + 1 + int (length es)" "calls s' = calls s1 @ new2"
    "list_all is_file_call new2" by blast
  from 1 2 have "calls s' = calls s @ (new1 @ new2) \<and> list_all is_file_call (new1 @ new2)" by simp
  with 2(1) show ?case by auto
qed

lemma file_calls_no_time: "list_all is_file_call cs \<Longrightarrow> time_calls cs = 0"
proof (induction cs)
  case Nil
  then show ?case by (simp add: time_calls_def)
next
  case (Cons c cs)
  then show ?case by (cases c) (simp_all add: time_calls_def)
qed

lemma wait_budget_calls: "calls (snd (wait_budget E sh t s)) = calls s"
  by (simp add: wait_budget_def Let_def split: option.splits)

text \<open>
  C2 as stated fails: with distinct readable and writable callbacks on descriptor 2 and
  the backend reporting it ready for both, one call invokes two callbacks and returns 1.
\<close>

theorem process_events_count_counterexample:
  "eco_poll_process_events quiet_env ECO_POLL_FILE_EVENTS 0
     \<lparr> loop = registered_rw, tick = 0, calls = [] \<rparr>
   = Some (1, \<lparr> loop = registered_rw, tick = 3,
                 calls = [CallFileProc 5 2 0 3, CallFileProc 6 2 0 3] \<rparr>)"
  by (simp add: eco_poll_process_events_def wait_budget_def dispatch_entry_def invoke_def
      quiet_env_def registered_rw_def fresh_loop_def slot_def consts_simps Let_def)

text \<open>
  C2, as the code has it. The value returned by \<^verbatim>\<open>eco_poll_process_events\<close> is the number
  of entries the backend reported in this call, each counted once whether it led to no,
  one or two descriptor callbacks, plus the number of timer callbacks invoked (the
  finalizers are not counted).
\<close>

theorem process_events_counts_entries:
  assumes "eco_poll_process_events E flags timeout s = Some (n, s')"
  shows "\<exists>new. calls s' = calls s @ new \<and>
               n = int (length (fired_entries E flags timeout s)) + int (time_calls new)"
proof (cases "flags AND ECO_POLL_TIME_EVENTS = 0 \<and> flags AND ECO_POLL_FILE_EVENTS = 0")
  case True
  with assms show ?thesis
    by (simp add: eco_poll_process_events_def fired_entries_def time_calls_def)
next
  case False
  let ?polls = "maxfd (loop s) \<noteq> - 1 \<or> (flags AND ECO_POLL_TIME_EVENTS \<noteq> 0 \<and> timeout \<noteq> 0)"
  let ?sh = "(if flags AND ECO_POLL_TIME_EVENTS \<noteq> 0 \<and> timeout \<noteq> 0
              then aeSearchNearestTimer (loop s) else None)"
  let ?b = "wait_budget E ?sh timeout s"
  let ?s1 = "snd ?b"
  from assms False obtain k s2 where
    d: "(if ?polls then dispatch_fired E (aeApiPoll E (tick ?s1) (fst ?b)) 0 (?s1\<lparr>tick := tick ?s1 + 1\<rparr>)
         else Some (0, s)) = Some (k, s2)"
    and t: "(if flags AND ECO_POLL_TIME_EVENTS \<noteq> 0
            then map_option (\<lambda>r. (k + fst r, snd r)) (processTimeEvents E s2)
            else Some (k, s2)) = Some (n, s')"
    by (auto simp: eco_poll_process_events_def Let_def split: option.splits prod.splits if_splits)
  have k: "k = int (length (fired_entries E flags timeout s))"
    and "\<exists>new. calls s2 = calls s @ new \<and> list_all is_file_call new"
  proof -
    show "k = int (length (fired_entries E flags timeout s))"
    proof (cases ?polls)
      case True
      with d have "dispatch_fired E (aeApiPoll E (tick ?s1) (fst ?b)) 0 (?s1\<lparr>tick := tick ?s1 + 1\<rparr>) = Some (k, s2)"
        by simp
      from dispatch_fired_calls [OF this] True False show ?thesis
        by (auto simp: fired_entries_def Let_def)
    next
      case f: False
      with d False show ?thesis by (auto simp: fired_entries_def)
    qed
    show "\<exists>new. calls s2 = calls s @ new \<and> list_all is_file_call new"
    proof (cases ?polls)
      case True
      with d have "dispatch_fired E (aeApiPoll E (tick ?s1) (fst ?b)) 0 (?s1\<lparr>tick := tick ?s1 + 1\<rparr>) = Some (k, s2)"
        by simp
      from dispatch_fired_calls [OF this] show ?thesis
        by (simp add: wait_budget_calls)
    next
      case f: False
      with d have "s2 = s" by (auto split: if_splits)
      then show ?thesis by simp
    qed
  qed
  then obtain new1 where n1: "calls s2 = calls s @ new1" "list_all is_file_call new1" by blast
  show ?thesis
  proof (cases "flags AND ECO_POLL_TIME_EVENTS \<noteq> 0")
    case True
    with t obtain j where p: "processTimeEvents E s2 = Some (j, s')" and n: "n = k + j"
      by auto
    from processTimeEvents_calls [OF p] obtain new2 where n2: "calls s' = calls s2 @ new2"
      "j = int (time_calls new2)" by blast
    from n1 n2 file_calls_no_time [OF n1(2)]
    have "calls s' = calls s @ (new1 @ new2) \<and> int (time_calls (new1 @ new2)) = j"
      by (simp add: time_calls_def)
    with n k show ?thesis by blast
  next
    case f: False
    with t have "n = k" "s' = s2" by auto
    with n1 k file_calls_no_time [OF n1(2)] show ?thesis by auto
  qed
qed

theorem process_events_counts_entries_witness:
  "map_option (\<lambda>r. (fst r, calls (snd r)))
     (eco_poll_process_events quiet_env (ECO_POLL_FILE_EVENTS OR ECO_POLL_TIME_EVENTS) 0
        \<lparr> loop = busy_loop, tick = 0, calls = [] \<rparr>)
   = Some (2, [CallFileProc 5 2 0 3, CallFileProc 6 2 0 3, CallTimeProc 1 0 0 0]) \<and>
   length (fired_entries quiet_env (ECO_POLL_FILE_EVENTS OR ECO_POLL_TIME_EVENTS) 0
        \<lparr> loop = busy_loop, tick = 0, calls = [] \<rparr>) = 1 \<and>
   time_calls [CallFileProc 5 2 0 3, CallFileProc 6 2 0 3, CallTimeProc 1 0 0 0] = 1"
proof -
  let ?s = "\<lparr> loop = busy_loop, tick = 0, calls = [] \<rparr>"
  let ?f = "ECO_POLL_FILE_EVENTS OR ECO_POLL_TIME_EVENTS"
  obtain s' where e: "eco_poll_process_events quiet_env ?f 0 ?s = Some (2, s')"
    and c: "calls s' = [CallFileProc 5 2 0 3, CallFileProc 6 2 0 3, CallTimeProc 1 0 0 0]"
    by (simp add: eco_poll_process_events_def wait_budget_def dispatch_entry_def invoke_def
      processTimeEvents_def sweep_step_def due_def unlinked_def timer_at_def cancelled_at_def busy_loop_def
      quiet_env_def registered_rw_def fresh_loop_def slot_def consts_simps Let_def)
  have t: "time_calls [CallFileProc 5 2 0 3, CallFileProc 6 2 0 3, CallTimeProc 1 0 0 0] = 1"
    by (simp add: time_calls_def)
  from process_events_counts_entries [OF e] c t e show ?thesis by simp
qed

subsection \<open>The timer list under callbacks\<close>

lemma same_node_refl: "same_node a a"
  by (simp add: same_node_def)

lemma list_all2_same_node_refl: "list_all2 same_node L L"
  by (simp add: list_all2_refl same_node_refl)

lemma evolvesI:
  "timeEventHead p' = new @ M \<Longrightarrow> list_all2 same_node (timeEventHead p) M \<Longrightarrow>
   distinct (map born new) \<Longrightarrow>
   (\<forall>x\<in>set new. timeEventNextId p \<le> born x \<and> born x < timeEventNextId p' \<and>
            (id_te x = born x \<or> id_te x = ECO_POLL_DELETED_EVENT_ID)) \<Longrightarrow>
   timeEventNextId p \<le> timeEventNextId p' \<Longrightarrow> evolves p p'"
  unfolding evolves_def by blast

lemma evolves_refl: "evolves p p"
  by (rule evolvesI [where new = "[]" and M = "timeEventHead p"])
    (simp_all add: list_all2_same_node_refl)

lemma mark_deleted_same:
  "mark_deleted L i = Some L' \<Longrightarrow> list_all2 same_node L L'"
proof (induction L arbitrary: L')
  case Nil
  then show ?case by simp
next
  case (Cons te tes)
  show ?case
  proof (cases "id_te te = i")
    case True
    with Cons.prems have "L' = te\<lparr>id_te := ECO_POLL_DELETED_EVENT_ID\<rparr> # tes" by simp
    moreover have "same_node te (te\<lparr>id_te := ECO_POLL_DELETED_EVENT_ID\<rparr>)"
      by (simp add: same_node_def)
    ultimately show ?thesis by (simp add: list_all2_same_node_refl)
  next
    case False
    with Cons.prems obtain tes' where "mark_deleted tes i = Some tes'" "L' = te # tes'"
      by auto
    with Cons.IH show ?thesis by (simp add: same_node_refl)
  qed
qed

lemma fire_all_same:
  "list_all2 same_node L
     (map (\<lambda>te. if id_te te \<noteq> ECO_POLL_DELETED_EVENT_ID
                then te\<lparr>when_sec := a, when_ms := b\<rparr> else te) L)"
  by (induction L) (auto simp: same_node_def)

lemma file_actions_keep_timers:
  "eco_poll_file_event_create p fd m pr cd r = Some (st, p') \<Longrightarrow>
     timeEventHead p' = timeEventHead p \<and> timeEventNextId p' = timeEventNextId p"
  "eco_poll_file_event_update p fd m pr cd r = Some (st, p') \<Longrightarrow>
     timeEventHead p' = timeEventHead p \<and> timeEventNextId p' = timeEventNextId p"
  "eco_poll_file_event_delete p fd m = Some p' \<Longrightarrow>
     timeEventHead p' = timeEventHead p \<and> timeEventNextId p' = timeEventNextId p"
  by (auto simp: eco_poll_file_event_create_def eco_poll_file_event_update_def
      eco_poll_file_event_delete_def Let_def split: if_splits)

lemma evolvesI_same:
  "timeEventNextId p' = timeEventNextId p \<Longrightarrow> list_all2 same_node (timeEventHead p) (timeEventHead p')
     \<Longrightarrow> evolves p p'"
  by (rule evolvesI [where new = "[]" and M = "timeEventHead p'"]) simp_all

lemma apply_action_evolves:
  assumes "apply_action a p = Some p'"
  shows "evolves p p'"
proof (cases a)
  case (FileEventCreate fd m pr cd r)
  with assms show ?thesis
    by (auto intro!: evolvesI_same dest!: file_actions_keep_timers(1) simp: list_all2_same_node_refl)
next
  case (FileEventUpdate fd m pr cd r)
  with assms show ?thesis
    by (auto intro!: evolvesI_same dest!: file_actions_keep_timers(2) simp: list_all2_same_node_refl)
next
  case (FileEventDelete fd m)
  with assms show ?thesis
    by (auto intro!: evolvesI_same dest!: file_actions_keep_timers(3) simp: list_all2_same_node_refl)
next
  case (TimeEventCreate ms pr cd fin ok cur)
  show ?thesis
  proof (cases ok)
    case False
    with TimeEventCreate assms have "timeEventHead p' = timeEventHead p"
      "timeEventNextId p' = timeEventNextId p + 1"
      by (auto simp: eco_poll_time_event_create_def Let_def)
    then show ?thesis
      by (intro evolvesI [where new = "[]" and M = "timeEventHead p"])
        (simp_all add: list_all2_same_node_refl)
  next
    case True
    with TimeEventCreate assms obtain te where "timeEventHead p' = [te] @ timeEventHead p"
      "timeEventNextId p' = timeEventNextId p + 1" "born te = timeEventNextId p" "id_te te = born te"
      by (auto simp: eco_poll_time_event_create_def Let_def)
    then show ?thesis
      by (intro evolvesI [where new = "[te]" and M = "timeEventHead p"])
        (simp_all add: list_all2_same_node_refl)
  qed
next
  case (TimeEventDelete i)
  with assms show ?thesis
    by (auto intro!: evolvesI_same simp: eco_poll_time_event_delete_def list_all2_same_node_refl
        mark_deleted_same split: option.splits)
next
  case (TimeFireAll cur)
  with assms show ?thesis
    by (auto intro!: evolvesI_same simp: eco_poll_time_fire_all_def fire_all_same)
qed

lemma list_all2_same_born: "list_all2 same_node L M \<Longrightarrow> map born M = map born L"
  by (induction rule: list_all2_induct) (auto simp: same_node_def)

lemma evolves_timers_ok:
  assumes "evolves p p'" and "timers_ok p"
  shows "timers_ok p'"
proof -
  from assms(1) obtain new M where L': "timeEventHead p' = new @ M"
    and sm: "list_all2 same_node (timeEventHead p) M"
    and dn: "distinct (map born new)"
    and nw: "\<forall>x\<in>set new. timeEventNextId p \<le> born x \<and> born x < timeEventNextId p' \<and>
            (id_te x = born x \<or> id_te x = ECO_POLL_DELETED_EVENT_ID)"
    and le: "timeEventNextId p \<le> timeEventNextId p'"
    by (auto simp: evolves_def)
  note b = list_all2_same_born [OF sm]
  from assms(2) have z: "0 \<le> timeEventNextId p" and dl: "distinct (map born (timeEventHead p))"
    and old: "\<forall>x\<in>set (timeEventHead p). 0 \<le> born x \<and> born x < timeEventNextId p \<and>
         (id_te x = born x \<or> id_te x = ECO_POLL_DELETED_EVENT_ID)"
    by (auto simp: timers_ok_def)
  have oldM: "0 \<le> born y \<and> born y < timeEventNextId p \<and>
         (id_te y = born y \<or> id_te y = ECO_POLL_DELETED_EVENT_ID)" if "y \<in> set M" for y
  proof -
    from that obtain j where j: "j < length M" "y = M ! j" by (auto simp: in_set_conv_nth)
    with sm have s: "same_node (timeEventHead p ! j) y" and jl: "j < length (timeEventHead p)"
      by (auto simp: list_all2_conv_all_nth)
    from jl old have "0 \<le> born (timeEventHead p ! j) \<and> born (timeEventHead p ! j) < timeEventNextId p \<and>
         (id_te (timeEventHead p ! j) = born (timeEventHead p ! j) \<or> id_te (timeEventHead p ! j) = ECO_POLL_DELETED_EVENT_ID)"
      by simp
    with s show ?thesis by (auto simp: same_node_def)
  qed
  have disj: "set (map born new) \<inter> set (map born M) = {}"
  proof -
    { fix x y assume "x \<in> set new" "y \<in> set M" "born x = born y"
      with nw oldM [of y] have False by force }
    then show ?thesis by auto
  qed
  from dl b have dM: "distinct (map born M)" by simp
  from dn dM disj have "distinct (map born (timeEventHead p'))" by (simp add: L')
  moreover have "\<forall>x\<in>set (timeEventHead p'). 0 \<le> born x \<and> born x < timeEventNextId p' \<and>
         (id_te x = born x \<or> id_te x = ECO_POLL_DELETED_EVENT_ID)"
  proof
    fix x assume "x \<in> set (timeEventHead p')"
    then consider "x \<in> set new" | "x \<in> set M" by (auto simp: L')
    then show "0 \<le> born x \<and> born x < timeEventNextId p' \<and>
         (id_te x = born x \<or> id_te x = ECO_POLL_DELETED_EVENT_ID)"
    proof cases
      case 1
      with nw have "timeEventNextId p \<le> born x" "born x < timeEventNextId p'"
        "id_te x = born x \<or> id_te x = ECO_POLL_DELETED_EVENT_ID" by auto
      then show ?thesis using z by auto
    next
      case 2
      from oldM [OF 2] le show ?thesis by auto
    qed
  qed
  ultimately show ?thesis using z le by (simp add: timers_ok_def)
qed

lemma length_rest: "n \<le> length L \<Longrightarrow> length (rest n L) = n"
  by (simp add: rest_def)

lemma rest_all: "rest (length L) L = L"
  by (simp add: rest_def)

lemma rest_Cons:
  "0 < n \<Longrightarrow> n \<le> length L \<Longrightarrow> rest n L = (L ! (length L - n)) # rest (n - 1) L"
proof -
  assume a: "0 < n" "n \<le> length L"
  then have "length L - n < length L" by simp
  from Cons_nth_drop_Suc [OF this] a show ?thesis
    by (simp add: rest_def Suc_diff_le)
qed

lemma rest_append: "n \<le> length M \<Longrightarrow> rest n (new @ M) = rest n M"
  by (simp add: rest_def)

lemma rest_list_all2:
  "list_all2 P L M \<Longrightarrow> list_all2 P (rest n L) (rest n M)"
  by (frule list_all2_lengthD) (simp add: rest_def list_all2_dropI)

lemma rest_update: "0 < n \<Longrightarrow> n \<le> length L \<Longrightarrow> rest (n - 1) (L[length L - n := x]) = rest (n - 1) L"
  by (simp add: rest_def)

lemma rest_unlinked: "0 < n \<Longrightarrow> n \<le> length L \<Longrightarrow> rest (n - 1) (unlinked n pv L) = rest (n - 1) L"
  by (cases pv) (auto simp: rest_def unlinked_def Suc_diff_le)

lemma length_unlinked:
  "0 < n \<Longrightarrow> n \<le> length L \<Longrightarrow> n - 1 \<le> length (unlinked n pv L)"
  by (cases pv) (auto simp: unlinked_def)

lemma length_unlinked_Some:
  "0 < n \<Longrightarrow> n \<le> length L \<Longrightarrow> p \<le> length L \<Longrightarrow> n \<le> length (unlinked n (Some p) L)"
  by (auto simp: unlinked_def)

lemma evolves_length:
  "evolves p p' \<Longrightarrow> length (timeEventHead p) \<le> length (timeEventHead p')"
  by (auto simp: evolves_def dest: list_all2_lengthD)

lemma evolves_rest:
  assumes "evolves p p'" and "n \<le> length (timeEventHead p)"
  shows "list_all2 same_node (rest n (timeEventHead p)) (rest n (timeEventHead p'))"
proof -
  from assms(1) obtain new M where L': "timeEventHead p' = new @ M"
    and sm: "list_all2 same_node (timeEventHead p) M" by (auto simp: evolves_def)
  from sm assms(2) have "n \<le> length M" by (auto dest: list_all2_lengthD)
  with L' have "rest n (timeEventHead p') = rest n M" by (simp add: rest_append)
  with rest_list_all2 [OF sm] show ?thesis by simp
qed

lemma apply_actions_inv:
  assumes step: "\<And>p p'. evolves p p' \<Longrightarrow> Inv p \<Longrightarrow> Inv p'"
  shows "apply_actions acts p = Some p' \<Longrightarrow> Inv p \<Longrightarrow> Inv p'"
proof (induction acts arbitrary: p)
  case Nil
  then show ?case by simp
next
  case (Cons a acts)
  from Cons.prems(1) obtain p1 where 1: "apply_action a p = Some p1"
    and 2: "apply_actions acts p1 = Some p'" by (auto split: option.splits)
  from step [OF apply_action_evolves [OF 1] Cons.prems(2)] have "Inv p1" .
  with 2 show ?case by (rule Cons.IH)
qed

lemma invoke_cases:
  assumes "invoke E c s = Some (r, s')"
  obtains p' where "apply_actions (fst (callback E (tick s))) (loop s) = Some p'"
    and "s' = s\<lparr>loop := p', tick := tick s + 1, calls := calls s @ [c]\<rparr>"
    and "r = snd (callback E (tick s))"
  using assms by (auto simp: invoke_def Let_def split: option.splits)

lemma invoke_inv:
  assumes step: "\<And>p p'. evolves p p' \<Longrightarrow> Inv p \<Longrightarrow> Inv p'"
    and "invoke E c s = Some (r, s')" and "Inv (loop s)"
  shows "Inv (loop s')"
proof -
  from assms(2) obtain p' where a: "apply_actions (fst (callback E (tick s))) (loop s) = Some p'"
    and s': "s' = s\<lparr>loop := p', tick := tick s + 1, calls := calls s @ [c]\<rparr>"
    by (rule invoke_cases)
  from apply_actions_inv [of Inv, OF step a assms(3)] s' show ?thesis by simp
qed

text \<open>The five ways through the body of the sweep's loop.\<close>

lemma sweep_step_cases:
  assumes "sweep_step E maxId n pv pr s = Some (pv', pr', s')"
  obtains
    (unlink) "0 < n" "n \<le> length (timeEventHead (loop s))"
      "id_te (timeEventHead (loop s) ! (length (timeEventHead (loop s)) - n)) = ECO_POLL_DELETED_EVENT_ID"
      "finalizerProc (timeEventHead (loop s) ! (length (timeEventHead (loop s)) - n)) = 0"
      "pv' = map_option (\<lambda>q. n) pv" "pr' = pr"
      "s' = s\<lparr>loop := (loop s)\<lparr>timeEventHead := unlinked n pv (timeEventHead (loop s))\<rparr>\<rparr>"
  | (finalize) r where "0 < n" "n \<le> length (timeEventHead (loop s))"
      "id_te (timeEventHead (loop s) ! (length (timeEventHead (loop s)) - n)) = ECO_POLL_DELETED_EVENT_ID"
      "finalizerProc (timeEventHead (loop s) ! (length (timeEventHead (loop s)) - n)) \<noteq> 0"
      "pv' = map_option (\<lambda>q. n) pv" "pr' = pr"
      "invoke E (CallFinalizer
                   (finalizerProc (timeEventHead (loop s) ! (length (timeEventHead (loop s)) - n)))
                   (clientData_te (timeEventHead (loop s) ! (length (timeEventHead (loop s)) - n)))
                   (born (timeEventHead (loop s) ! (length (timeEventHead (loop s)) - n))))
         (s\<lparr>loop := (loop s)\<lparr>timeEventHead := unlinked n pv (timeEventHead (loop s))\<rparr>\<rparr>)
       = Some (r, s')"
  | (skip) "0 < n" "n \<le> length (timeEventHead (loop s))"
      "id_te (timeEventHead (loop s) ! (length (timeEventHead (loop s)) - n)) \<noteq> ECO_POLL_DELETED_EVENT_ID"
      "id_te (timeEventHead (loop s) ! (length (timeEventHead (loop s)) - n)) > maxId"
      "pv' = pv" "pr' = pr" "s' = s"
  | (wait) "0 < n" "n \<le> length (timeEventHead (loop s))"
      "id_te (timeEventHead (loop s) ! (length (timeEventHead (loop s)) - n)) \<noteq> ECO_POLL_DELETED_EVENT_ID"
      "\<not> id_te (timeEventHead (loop s) ! (length (timeEventHead (loop s)) - n)) > maxId"
      "\<not> due (aeGetTime E (tick s)) (timeEventHead (loop s) ! (length (timeEventHead (loop s)) - n))"
      "pv' = Some n" "pr' = pr" "s' = s\<lparr>tick := tick s + 1\<rparr>"
  | (fire) ret s2 te3 where "0 < n" "n \<le> length (timeEventHead (loop s))"
      "id_te (timeEventHead (loop s) ! (length (timeEventHead (loop s)) - n)) \<noteq> ECO_POLL_DELETED_EVENT_ID"
      "\<not> id_te (timeEventHead (loop s) ! (length (timeEventHead (loop s)) - n)) > maxId"
      "due (aeGetTime E (tick s)) (timeEventHead (loop s) ! (length (timeEventHead (loop s)) - n))"
      "timeProc (timeEventHead (loop s) ! (length (timeEventHead (loop s)) - n)) \<noteq> 0"
      "invoke E (CallTimeProc
                   (timeProc (timeEventHead (loop s) ! (length (timeEventHead (loop s)) - n)))
                   (id_te (timeEventHead (loop s) ! (length (timeEventHead (loop s)) - n)))
                   (clientData_te (timeEventHead (loop s) ! (length (timeEventHead (loop s)) - n)))
                   (born (timeEventHead (loop s) ! (length (timeEventHead (loop s)) - n))))
         (s\<lparr>tick := tick s + 1\<rparr>) = Some (ret, s2)"
      "pv' = Some n" "pr' = pr + 1" "calls s' = calls s2"
      "same_node (timeEventHead (loop s2) ! (length (timeEventHead (loop s2)) - n)) te3"
      "loop s' = (loop s2)\<lparr>timeEventHead :=
                   (timeEventHead (loop s2))[length (timeEventHead (loop s2)) - n := te3]\<rparr>"
proof -
  let ?L = "timeEventHead (loop s)"
  let ?te = "?L ! (length ?L - n)"
  from assms have n: "n \<noteq> 0" "\<not> length ?L < n"
    by (auto simp: sweep_step_def due_def unlinked_def Let_def split: if_splits)
  then have n': "0 < n" "n \<le> length ?L" by auto
  show thesis
  proof (cases "id_te ?te = ECO_POLL_DELETED_EVENT_ID")
    case True
    show ?thesis
    proof (cases "finalizerProc ?te = 0")
      case f: True
      with True assms n show ?thesis
        by (intro unlink n') (auto simp: sweep_step_def due_def unlinked_def Let_def split: option.splits)
    next
      case f: False
      with True assms n obtain r where
        "invoke E (CallFinalizer (finalizerProc ?te) (clientData_te ?te) (born ?te))
           (s\<lparr>loop := (loop s)\<lparr>timeEventHead := unlinked n pv ?L\<rparr>\<rparr>) = Some (r, s')"
        "pv' = map_option (\<lambda>q. n) pv" "pr' = pr"
        by (auto simp: sweep_step_def due_def unlinked_def Let_def split: option.splits)
      with True f show ?thesis by (intro finalize n')
    qed
  next
    case live: False
    show ?thesis
    proof (cases "id_te ?te > maxId")
      case True
      with live assms n show ?thesis
        by (intro skip n') (auto simp: sweep_step_def due_def unlinked_def Let_def)
    next
      case old: False
      show ?thesis
      proof (cases "due (aeGetTime E (tick s)) ?te")
        case False
        with live old assms n show ?thesis
          by (intro wait n') (auto simp: sweep_step_def due_def unlinked_def Let_def)
      next
        case True
        with live old assms n have tp: "timeProc ?te \<noteq> 0"
          by (auto simp: sweep_step_def due_def unlinked_def Let_def split: if_splits)
        let ?c = "CallTimeProc (timeProc ?te) (id_te ?te) (clientData_te ?te) (born ?te)"
        from True live old assms n tp have "invoke E ?c (s\<lparr>tick := tick s + 1\<rparr>) \<noteq> None"
          by (auto simp: sweep_step_def due_def unlinked_def Let_def split: if_splits option.splits)
        then obtain ret s2 where i: "invoke E ?c (s\<lparr>tick := tick s + 1\<rparr>) = Some (ret, s2)"
          by auto
        let ?L2 = "timeEventHead (loop s2)"
        let ?te2 = "?L2 ! (length ?L2 - n)"
        have "\<exists>te3. pv' = Some n \<and> pr' = pr + 1 \<and> calls s' = calls s2 \<and> same_node ?te2 te3 \<and>
          loop s' = (loop s2)\<lparr>timeEventHead := ?L2[length ?L2 - n := te3]\<rparr>"
        proof (cases "ret = ECO_POLL_NOMORE")
          case nm: True
          from True live old assms n tp i nm
          have "pv' = Some n \<and> pr' = pr + 1 \<and> calls s' = calls s2 \<and>
            loop s' = (loop s2)\<lparr>timeEventHead :=
              ?L2[length ?L2 - n := ?te2\<lparr>id_te := ECO_POLL_DELETED_EVENT_ID\<rparr>]\<rparr>"
            by (auto simp: sweep_step_def due_def unlinked_def Let_def)
          moreover have "same_node ?te2 (?te2\<lparr>id_te := ECO_POLL_DELETED_EVENT_ID\<rparr>)"
            by (simp add: same_node_def)
          ultimately show ?thesis by blast
        next
          case nm: False
          let ?w = "aeAddMillisecondsToNow ret (aeGetTime E (tick s2))"
          from True live old assms n tp i nm
          have "pv' = Some n \<and> pr' = pr + 1 \<and> calls s' = calls s2 \<and>
            loop s' = (loop s2)\<lparr>timeEventHead :=
              ?L2[length ?L2 - n := ?te2\<lparr>when_sec := fst ?w, when_ms := snd ?w\<rparr>]\<rparr>"
            by (auto simp: sweep_step_def due_def unlinked_def Let_def)
          moreover have "same_node ?te2 (?te2\<lparr>when_sec := fst ?w, when_ms := snd ?w\<rparr>)"
            by (simp add: same_node_def)
          ultimately show ?thesis by blast
        qed
        then obtain te3 where "pv' = Some n" "pr' = pr + 1" "calls s' = calls s2"
          "same_node ?te2 te3"
          "loop s' = (loop s2)\<lparr>timeEventHead := ?L2[length ?L2 - n := te3]\<rparr>"
          by blast
        with True live old tp i show ?thesis by (intro fire n')
      qed
    qed
  qed
qed

lemma evolves_gone:
  assumes "evolves p p'" and "gone tid p"
  shows "gone tid p'"
proof -
  from assms(1) obtain new M where L': "timeEventHead p' = new @ M"
    and sm: "list_all2 same_node (timeEventHead p) M"
    and nw: "\<forall>x\<in>set new. timeEventNextId p \<le> born x"
    and le: "timeEventNextId p \<le> timeEventNextId p'"
    by (auto simp: evolves_def)
  from list_all2_same_born [OF sm] have "born ` set M = born ` set (timeEventHead p)"
    by (metis set_map)
  with assms(2) nw le L' show ?thesis by (auto simp: gone_def)
qed

lemma set_unlinked: "set (unlinked n pv L) \<subseteq> set L"
  by (cases pv) (auto simp: unlinked_def dest: in_set_takeD in_set_dropD)

lemma update_same_born:
  "k < length L \<Longrightarrow> same_node (L ! k) x \<Longrightarrow> map born (L[k := x]) = map born L"
  by (simp add: map_update same_node_def list_update_same_conv)

lemma evolves_length_le:
  "evolves p p' \<Longrightarrow> n \<le> length (timeEventHead p) \<Longrightarrow> n \<le> length (timeEventHead p')"
  by (drule evolves_length) simp

subsection \<open>Invariants of the sweep\<close>

lemma sweep_step_gone:
  assumes "sweep_step E maxId n pv pr s = Some (pv', pr', s')" and "gone tid (loop s)"
  shows "gone tid (loop s') \<and>
         (\<exists>new. calls s' = calls s @ new \<and> (\<forall>c\<in>set new. call_born c \<noteq> Some tid))"
  using assms(1)
proof (cases rule: sweep_step_cases)
  case unlink
  with assms(2) set_unlinked [of n pv "timeEventHead (loop s)"] show ?thesis
    by (auto simp: gone_def)
next
  case (finalize r)
  let ?U = "(loop s)\<lparr>timeEventHead := unlinked n pv (timeEventHead (loop s))\<rparr>"
  from assms(2) set_unlinked [of n pv "timeEventHead (loop s)"] have g: "gone tid ?U"
    by (auto simp: gone_def)
  from invoke_inv [of "gone tid", OF evolves_gone finalize(7)] g have "gone tid (loop s')" by simp
  moreover from finalize(1,2) have "timeEventHead (loop s) ! (length (timeEventHead (loop s)) - n)
      \<in> set (timeEventHead (loop s))" by simp
  with assms(2) have "born (timeEventHead (loop s) ! (length (timeEventHead (loop s)) - n)) \<noteq> tid"
    by (auto simp: gone_def)
  with invoke_calls [OF finalize(7)] have
    "\<exists>new. calls s' = calls s @ new \<and> (\<forall>c\<in>set new. call_born c \<noteq> Some tid)" by simp
  ultimately show ?thesis by simp
next
  case skip
  with assms(2) show ?thesis by simp
next
  case wait
  with assms(2) show ?thesis by simp
next
  case (fire ret s2 te3)
  from invoke_inv [of "gone tid", OF evolves_gone fire(7)] assms(2) have g2: "gone tid (loop s2)"
    by simp
  from invoke_inv [of "\<lambda>p. n \<le> length (timeEventHead p)", OF evolves_length_le fire(7)] fire(2)
  have "n \<le> length (timeEventHead (loop s2))" by simp
  with fire(1) have k: "length (timeEventHead (loop s2)) - n < length (timeEventHead (loop s2))"
    by simp
  from update_same_born [OF k fire(11)] fire(12) g2 have "gone tid (loop s')"
    by (simp add: gone_def) (metis set_map)
  moreover from fire(1,2) have "timeEventHead (loop s) ! (length (timeEventHead (loop s)) - n)
      \<in> set (timeEventHead (loop s))" by simp
  with assms(2) have "born (timeEventHead (loop s) ! (length (timeEventHead (loop s)) - n)) \<noteq> tid"
    by (auto simp: gone_def)
  with invoke_calls [OF fire(7)] fire(10) have
    "\<exists>new. calls s' = calls s @ new \<and> (\<forall>c\<in>set new. call_born c \<noteq> Some tid)" by simp
  ultimately show ?thesis by simp
qed

lemma sweep_gone:
  "sweep E maxId n pv pr s = Some (pr', s') \<Longrightarrow> gone tid (loop s) \<Longrightarrow>
     gone tid (loop s') \<and>
     (\<exists>new. calls s' = calls s @ new \<and> (\<forall>c\<in>set new. call_born c \<noteq> Some tid))"
proof (induction n arbitrary: pv pr s)
  case 0
  then show ?case by simp
next
  case (Suc m)
  from Suc.prems(1) obtain pv1 pr1 s1 where st: "sweep_step E maxId (Suc m) pv pr s = Some (pv1, pr1, s1)"
    and r: "sweep E maxId m pv1 pr1 s1 = Some (pr', s')"
    by (auto split: option.splits)
  from sweep_step_gone [OF st Suc.prems(2)] obtain new1 where 1: "gone tid (loop s1)"
    "calls s1 = calls s @ new1" "\<forall>c\<in>set new1. call_born c \<noteq> Some tid" by blast
  from Suc.IH [OF r 1(1)] obtain new2 where 2: "gone tid (loop s')"
    "calls s' = calls s1 @ new2" "\<forall>c\<in>set new2. call_born c \<noteq> Some tid" by blast
  from 1 2 have "calls s' = calls s @ (new1 @ new2) \<and> (\<forall>c\<in>set (new1 @ new2). call_born c \<noteq> Some tid)"
    by auto
  with 2(1) show ?case by blast
qed

lemma evolves_cursor_ok:
  "evolves p p' \<Longrightarrow> cursor_ok n pv p \<Longrightarrow> cursor_ok n pv p'"
  by (auto simp: cursor_ok_def dest: evolves_timers_ok evolves_length)

lemma distinct_take_drop:
  assumes "distinct (map f L)" and "a \<le> b"
  shows "distinct (map f (take a L @ drop b L))"
proof -
  have "L = take a L @ drop a L" by simp
  with assms(1) have d: "distinct (map f (take a L) @ map f (drop a L))" by (metis map_append)
  have "drop b L = drop (b - a) (drop a L)" using assms(2) by simp
  then have "set (map f (drop b L)) \<subseteq> set (map f (drop a L))"
    by (metis set_drop_subset image_mono set_map)
  moreover have "distinct (map f (drop b L))" using assms(1) by (simp add: distinct_drop drop_map [symmetric])
  ultimately show ?thesis using d by auto
qed

lemma timers_ok_unlinked:
  assumes "cursor_ok n pv p" and "0 < n"
  shows "timers_ok (p\<lparr>timeEventHead := unlinked n pv (timeEventHead p)\<rparr>)"
proof -
  let ?L = "timeEventHead p"
  from assms(1) have ok: "timers_ok p" and n: "n \<le> length ?L"
    and q: "\<forall>q. pv = Some q \<longrightarrow> n < q \<and> q \<le> length ?L" by (auto simp: cursor_ok_def)
  have "distinct (map born (unlinked n pv ?L))"
  proof (cases pv)
    case None
    with ok show ?thesis by (simp add: unlinked_def timers_ok_def distinct_drop drop_map [symmetric])
  next
    case (Some q')
    with q have "Suc (length ?L - q') \<le> Suc (length ?L - n)" by auto
    from distinct_take_drop [OF _ this, of born ?L] ok Some show ?thesis
      by (simp add: unlinked_def timers_ok_def)
  qed
  with ok set_unlinked [of n pv ?L] show ?thesis by (auto simp: timers_ok_def)
qed

lemma timers_ok_update:
  assumes "timers_ok p" and "k < length (timeEventHead p)" and "same_node (timeEventHead p ! k) x"
  shows "timers_ok (p\<lparr>timeEventHead := (timeEventHead p)[k := x]\<rparr>)"
proof -
  have "list_all2 same_node ((timeEventHead p)[k := timeEventHead p ! k]) ((timeEventHead p)[k := x])"
    by (rule list_all2_update_cong [OF list_all2_same_node_refl assms(3)])
  then have "evolves p (p\<lparr>timeEventHead := (timeEventHead p)[k := x]\<rparr>)"
    by (intro evolvesI_same) simp_all
  from evolves_timers_ok [OF this assms(1)] show ?thesis .
qed

lemma sweep_step_cursor_ok:
  assumes "sweep_step E maxId n pv pr s = Some (pv', pr', s')" and "cursor_ok n pv (loop s)"
  shows "cursor_ok (n - 1) pv' (loop s')"
  using assms(1)
proof (cases rule: sweep_step_cases)
  case unlink
  from timers_ok_unlinked [OF assms(2) unlink(1)] unlink assms(2)
    length_unlinked [OF unlink(1,2), of pv]
  show ?thesis
    by (cases pv) (auto simp: cursor_ok_def length_unlinked_Some)
next
  case (finalize r)
  let ?U = "(loop s)\<lparr>timeEventHead := unlinked n pv (timeEventHead (loop s))\<rparr>"
  from timers_ok_unlinked [OF assms(2) finalize(1)] finalize assms(2)
    length_unlinked [OF finalize(1,2), of pv]
  have "cursor_ok (n - 1) pv' ?U"
    by (cases pv) (auto simp: cursor_ok_def length_unlinked_Some)
  from invoke_inv [of "cursor_ok (n - 1) pv'", OF evolves_cursor_ok finalize(7)] this
  show ?thesis by simp
next
  case skip
  with assms(2) show ?thesis by (auto simp: cursor_ok_def)
next
  case wait
  with assms(2) show ?thesis by (auto simp: cursor_ok_def)
next
  case (fire ret s2 te3)
  from assms(2) have "cursor_ok n pv (loop (s\<lparr>tick := tick s + 1\<rparr>))" by simp
  from invoke_inv [of "cursor_ok n pv", OF evolves_cursor_ok fire(7)] this
  have c2: "cursor_ok n pv (loop s2)" by simp
  then have ok2: "timers_ok (loop s2)" and n2: "n \<le> length (timeEventHead (loop s2))"
    by (auto simp: cursor_ok_def)
  from n2 fire(1) have k: "length (timeEventHead (loop s2)) - n < length (timeEventHead (loop s2))"
    by simp
  from timers_ok_update [OF ok2 k fire(11)] fire(12) have "timers_ok (loop s')" by simp
  with fire(8,12) n2 fire(1) show ?thesis by (auto simp: cursor_ok_def)
qed

lemma pending_same:
  assumes "list_all2 same_node R R'"
    and "\<exists>te\<in>set R. born te = tid \<and> id_te te = ECO_POLL_DELETED_EVENT_ID \<and>
        finalizerProc te = f \<and> clientData_te te = c"
  shows "\<exists>te\<in>set R'. born te = tid \<and> id_te te = ECO_POLL_DELETED_EVENT_ID \<and>
        finalizerProc te = f \<and> clientData_te te = c"
proof -
  from assms(2) obtain j where j: "j < length R" and te: "born (R ! j) = tid"
    "id_te (R ! j) = ECO_POLL_DELETED_EVENT_ID" "finalizerProc (R ! j) = f" "clientData_te (R ! j) = c"
    by (auto simp: in_set_conv_nth)
  from assms(1) j have j': "j < length R'" and s: "same_node (R ! j) (R' ! j)"
    by (auto simp: list_all2_conv_all_nth)
  from s te have "born (R' ! j) = tid \<and> id_te (R' ! j) = ECO_POLL_DELETED_EVENT_ID \<and>
        finalizerProc (R' ! j) = f \<and> clientData_te (R' ! j) = c"
    by (auto simp: same_node_def)
  with j' show ?thesis by (metis nth_mem)
qed

lemma evolves_pending:
  assumes "evolves p p'" and "n \<le> length (timeEventHead p) \<and> pending tid f c n p"
  shows "n \<le> length (timeEventHead p') \<and> pending tid f c n p'"
proof -
  from assms have n: "n \<le> length (timeEventHead p)" and pe: "pending tid f c n p" by auto
  from pending_same [OF evolves_rest [OF assms(1) n]] pe have "pending tid f c n p'"
    by (simp add: pending_def)
  with evolves_length_le [OF assms(1) n] show ?thesis by simp
qed

lemma born_eq:
  assumes "timers_ok p" and "x \<in> set (timeEventHead p)" and "y \<in> set (timeEventHead p)"
    and "born x = born y"
  shows "x = y"
proof -
  from assms(1) have "inj_on born (set (timeEventHead p))"
    by (simp add: timers_ok_def distinct_map)
  with assms(2,3,4) show ?thesis by (auto dest: inj_onD)
qed

lemma set_rest: "set (rest n L) \<subseteq> set L"
  by (auto simp: rest_def dest: in_set_dropD)

lemma cursor_notin_unlinked:
  assumes "cursor_ok n pv p" and "0 < n"
  shows "born (timeEventHead p ! (length (timeEventHead p) - n))
           \<notin> born ` set (unlinked n pv (timeEventHead p))"
proof -
  let ?L = "timeEventHead p"
  let ?i = "length ?L - n"
  from assms have ok: "timers_ok p" and n: "n \<le> length ?L"
    and q: "\<forall>q. pv = Some q \<longrightarrow> n < q \<and> q \<le> length ?L" by (auto simp: cursor_ok_def)
  from n assms(2) have i: "?i < length ?L" by simp
  from id_take_nth_drop [OF i] have "?L = take ?i ?L @ ?L ! ?i # drop (Suc ?i) ?L" .
  then have "map born ?L = map born (take ?i ?L) @ born (?L ! ?i) # map born (drop (Suc ?i) ?L)"
    by (metis map_append list.simps(9))
  with ok have d: "born (?L ! ?i) \<notin> set (map born (take ?i ?L))"
    "born (?L ! ?i) \<notin> set (map born (drop (Suc ?i) ?L))"
    unfolding timers_ok_def by (metis distinct_append distinct.simps(2) disjoint_insert(1) list.set(2) Int_iff empty_iff not_distinct_conv_prefix)+
  have "set (unlinked n pv ?L) \<subseteq> set (take ?i ?L) \<union> set (drop (Suc ?i) ?L)"
  proof (cases pv)
    case None
    then show ?thesis by (auto simp: unlinked_def)
  next
    case (Some q')
    with q have "Suc (length ?L - q') \<le> ?i" by auto
    from set_take_subset_set_take [OF this, of ?L] Some show ?thesis
      by (auto simp: unlinked_def)
  qed
  with d show ?thesis by auto
qed

lemma sweep_step_cursor:
  "sweep_step E maxId n pv pr s = Some r \<Longrightarrow> 0 < n \<and> n \<le> length (timeEventHead (loop s))"
  by (auto simp: sweep_step_def due_def unlinked_def Let_def split: if_splits)

lemma sweep_step_pending_other:
  assumes st: "sweep_step E maxId n pv pr s = Some (pv', pr', s')"
    and co: "cursor_ok n pv (loop s)"
    and pe: "pending tid f c n (loop s)"
    and ne: "born (timeEventHead (loop s) ! (length (timeEventHead (loop s)) - n)) \<noteq> tid"
  shows "pending tid f c (n - 1) (loop s') \<and>
         (\<exists>new. calls s' = calls s @ new \<and> (\<forall>c\<in>set new. call_born c \<noteq> Some tid))"
proof -
  let ?L = "timeEventHead (loop s)"
  let ?te = "?L ! (length ?L - n)"
  from sweep_step_cursor [OF st] have n: "0 < n" "n \<le> length ?L" by simp_all
  from rest_Cons [OF n] pe ne have p1: "pending tid f c (n - 1) (loop s)"
    by (auto simp: pending_def)
  from n have n1: "n - 1 \<le> length ?L" by simp
  from st show ?thesis
  proof (cases rule: sweep_step_cases)
    case unlink
    with p1 rest_unlinked [OF n, of pv] show ?thesis by (simp add: pending_def)
  next
    case (finalize r)
    let ?U = "(loop s)\<lparr>timeEventHead := unlinked n pv ?L\<rparr>"
    from p1 rest_unlinked [OF n, of pv] length_unlinked [OF n, of pv]
    have "n - 1 \<le> length (timeEventHead ?U) \<and> pending tid f c (n - 1) ?U"
      by (simp add: pending_def)
    from invoke_inv [of "\<lambda>p. n - 1 \<le> length (timeEventHead p) \<and> pending tid f c (n - 1) p",
        OF evolves_pending finalize(7)] this
    have "pending tid f c (n - 1) (loop s')" by simp
    with invoke_calls [OF finalize(7)] ne show ?thesis by simp
  next
    case skip
    with p1 show ?thesis by simp
  next
    case wait
    with p1 show ?thesis by simp
  next
    case (fire ret s2 te3)
    from invoke_inv [of "\<lambda>p. n - 1 \<le> length (timeEventHead p) \<and> pending tid f c (n - 1) p",
        OF evolves_pending fire(7)] p1 n1
    have p2: "pending tid f c (n - 1) (loop s2)" by simp
    from invoke_inv [of "\<lambda>p. n \<le> length (timeEventHead p)", OF evolves_length_le fire(7)] n(2)
    have n2: "n \<le> length (timeEventHead (loop s2))" by simp
    from p2 fire(12) rest_update [OF n(1) n2, of te3] have "pending tid f c (n - 1) (loop s')"
      by (simp add: pending_def)
    with invoke_calls [OF fire(7)] fire(10) ne show ?thesis by simp
  qed
qed

lemma sweep_step_pending_hit:
  assumes st: "sweep_step E maxId n pv pr s = Some (pv', pr', s')"
    and co: "cursor_ok n pv (loop s)"
    and pe: "pending tid f c n (loop s)"
    and eq: "born (timeEventHead (loop s) ! (length (timeEventHead (loop s)) - n)) = tid"
  shows "gone tid (loop s') \<and>
         (\<exists>new. calls s' = calls s @ new \<and>
            filter (\<lambda>x. call_born x = Some tid) new = (if f \<noteq> 0 then [CallFinalizer f c tid] else []))"
proof -
  let ?L = "timeEventHead (loop s)"
  let ?te = "?L ! (length ?L - n)"
  let ?U = "(loop s)\<lparr>timeEventHead := unlinked n pv ?L\<rparr>"
  from sweep_step_cursor [OF st] have n: "0 < n" "n \<le> length ?L" by simp_all
  from co have ok: "timers_ok (loop s)" by (simp add: cursor_ok_def)
  from n have te: "?te \<in> set ?L" by simp
  from pe obtain x where x: "x \<in> set ?L" "born x = tid" "id_te x = ECO_POLL_DELETED_EVENT_ID"
    "finalizerProc x = f" "clientData_te x = c"
    using set_rest [of n ?L] by (auto simp: pending_def)
  from born_eq [OF ok x(1) te] x(2) eq have "x = ?te" by simp
  with x have d: "id_te ?te = ECO_POLL_DELETED_EVENT_ID" and f: "finalizerProc ?te = f"
    and c: "clientData_te ?te = c" by simp_all
  from ok te eq have "tid < timeEventNextId (loop s)" by (auto simp: timers_ok_def)
  with cursor_notin_unlinked [OF co n(1)] eq have g: "gone tid ?U" by (simp add: gone_def)
  from st show ?thesis
  proof (cases rule: sweep_step_cases)
    case unlink
    with g f show ?thesis by simp
  next
    case (finalize r)
    from invoke_inv [of "gone tid", OF evolves_gone finalize(7)] g have "gone tid (loop s')" by simp
    with invoke_calls [OF finalize(7)] finalize(4) f c eq show ?thesis by simp
  next
    case skip
    with d show ?thesis by simp
  next
    case wait
    with d show ?thesis by simp
  next
    case (fire ret s2 te3)
    with d show ?thesis by simp
  qed
qed

lemma sweep_pending:
  "sweep E maxId n pv pr s = Some (pr', s') \<Longrightarrow> cursor_ok n pv (loop s) \<Longrightarrow>
   pending tid f c n (loop s) \<Longrightarrow>
     gone tid (loop s') \<and>
     (\<exists>new. calls s' = calls s @ new \<and>
        filter (\<lambda>x. call_born x = Some tid) new = (if f \<noteq> 0 then [CallFinalizer f c tid] else []))"
proof (induction n arbitrary: pv pr s)
  case 0
  then show ?case by (simp add: pending_def rest_def)
next
  case (Suc m)
  let ?L = "timeEventHead (loop s)"
  from Suc.prems(1) obtain pv1 pr1 s1 where st: "sweep_step E maxId (Suc m) pv pr s = Some (pv1, pr1, s1)"
    and r: "sweep E maxId m pv1 pr1 s1 = Some (pr', s')"
    by (auto split: option.splits)
  show ?case
  proof (cases "born (?L ! (length ?L - Suc m)) = tid")
    case True
    from sweep_step_pending_hit [OF st Suc.prems(2,3) True] obtain new1 where
      1: "gone tid (loop s1)" "calls s1 = calls s @ new1"
      "filter (\<lambda>x. call_born x = Some tid) new1 = (if f \<noteq> 0 then [CallFinalizer f c tid] else [])"
      by blast
    from sweep_gone [OF r 1(1)] obtain new2 where 2: "gone tid (loop s')"
      "calls s' = calls s1 @ new2" "\<forall>c\<in>set new2. call_born c \<noteq> Some tid" by blast
    from 2(3) have "filter (\<lambda>x. call_born x = Some tid) new2 = []" by (simp add: filter_empty_conv)
    with 1 2 have "calls s' = calls s @ (new1 @ new2) \<and>
      filter (\<lambda>x. call_born x = Some tid) (new1 @ new2) = (if f \<noteq> 0 then [CallFinalizer f c tid] else [])"
      by simp
    with 2(1) show ?thesis by blast
  next
    case False
    from sweep_step_pending_other [OF st Suc.prems(2,3) False] obtain new1 where
      1: "pending tid f c m (loop s1)" "calls s1 = calls s @ new1"
      "\<forall>c\<in>set new1. call_born c \<noteq> Some tid" by auto
    from sweep_step_cursor_ok [OF st Suc.prems(2)] have c1: "cursor_ok m pv1 (loop s1)" by simp
    from Suc.IH [OF r c1 1(1)] obtain new2 where 2: "gone tid (loop s')"
      "calls s' = calls s1 @ new2"
      "filter (\<lambda>x. call_born x = Some tid) new2 = (if f \<noteq> 0 then [CallFinalizer f c tid] else [])"
      by blast
    from 1(3) have "filter (\<lambda>x. call_born x = Some tid) new1 = []" by (simp add: filter_empty_conv)
    with 1 2 have "calls s' = calls s @ (new1 @ new2) \<and>
      filter (\<lambda>x. call_born x = Some tid) (new1 @ new2) = (if f \<noteq> 0 then [CallFinalizer f c tid] else [])"
      by simp
    with 2(1) show ?thesis by blast
  qed
qed

subsection \<open>Cancelling a timer\<close>

lemma mark_deleted_None_iff: "mark_deleted L i = None \<longleftrightarrow> i \<notin> id_te ` set L"
  by (induction L) auto

lemma mark_deleted_nth:
  "mark_deleted L i = Some L' \<Longrightarrow>
     \<exists>k<length L. id_te (L ! k) = i \<and> L' = L[k := (L ! k)\<lparr>id_te := ECO_POLL_DELETED_EVENT_ID\<rparr>]"
proof (induction L arbitrary: L')
  case Nil
  then show ?case by simp
next
  case (Cons te tes)
  show ?case
  proof (cases "id_te te = i")
    case True
    with Cons.prems have "L' = (te # tes)[0 := ((te # tes) ! 0)\<lparr>id_te := ECO_POLL_DELETED_EVENT_ID\<rparr>]"
      by simp
    with True show ?thesis by (intro exI [of _ 0]) simp
  next
    case False
    with Cons.prems obtain tes' where m: "mark_deleted tes i = Some tes'" and L': "L' = te # tes'"
      by auto
    from Cons.IH [OF m] obtain k where "k < length tes" "id_te (tes ! k) = i"
      "tes' = tes[k := (tes ! k)\<lparr>id_te := ECO_POLL_DELETED_EVENT_ID\<rparr>]" by blast
    with L' show ?thesis by (intro exI [of _ "Suc k"]) simp
  qed
qed

lemma pending_mono:
  assumes "pending tid f c n p" and "n \<le> m"
  shows "pending tid f c m p"
proof -
  from assms(2) have "length (timeEventHead p) - m \<le> length (timeEventHead p) - n" by simp
  then have "set (rest n (timeEventHead p)) \<subseteq> set (rest m (timeEventHead p))"
    unfolding rest_def by (rule set_drop_subset_set_drop)
  with assms(1) show ?thesis unfolding pending_def by blast
qed

lemma cancel_marks:
  assumes ok: "timers_ok p" and te: "te \<in> set (timeEventHead p)" and i: "id_te te = tid"
    and nd: "tid \<noteq> ECO_POLL_DELETED_EVENT_ID"
  shows "\<exists>L'. eco_poll_time_event_delete p tid = (ES_SUCCESS, p\<lparr>timeEventHead := L'\<rparr>) \<and>
           tid \<notin> id_te ` set L' \<and> timers_ok (p\<lparr>timeEventHead := L'\<rparr>) \<and>
           pending tid (finalizerProc te) (clientData_te te) (length L') (p\<lparr>timeEventHead := L'\<rparr>)"
proof -
  let ?L = "timeEventHead p"
  from te i have "mark_deleted ?L tid \<noteq> None" by (auto simp: mark_deleted_None_iff)
  then obtain L' where m: "mark_deleted ?L tid = Some L'" by auto
  from mark_deleted_nth [OF m] obtain k where k: "k < length ?L" "id_te (?L ! k) = tid"
    and L': "L' = ?L[k := (?L ! k)\<lparr>id_te := ECO_POLL_DELETED_EVENT_ID\<rparr>]" by blast
  from ok have ids: "\<forall>x\<in>set ?L. id_te x = born x \<or> id_te x = ECO_POLL_DELETED_EVENT_ID"
    by (auto simp: timers_ok_def)
  from k nd ids have bk: "born (?L ! k) = tid" by (metis nth_mem)
  from te i nd ids have bt: "born te = tid" by auto
  from born_eq [OF ok te nth_mem [OF k(1)]] bk bt have tk: "te = ?L ! k" by simp
  have e: "eco_poll_time_event_delete p tid = (ES_SUCCESS, p\<lparr>timeEventHead := L'\<rparr>)"
    by (simp add: eco_poll_time_event_delete_def m)
  have no: "tid \<notin> id_te ` set L'"
  proof
    assume "tid \<in> id_te ` set L'"
    then obtain j where j: "j < length L'" "id_te (L' ! j) = tid" by (auto simp: in_set_conv_nth)
    with L' nd k have jk: "j \<noteq> k" "j < length ?L" "id_te (?L ! j) = tid" by (auto simp: nth_list_update split: if_splits)
    with nd ids have "born (?L ! j) = tid" by (metis nth_mem)
    from born_eq [OF ok nth_mem [OF jk(2)] nth_mem [OF k(1)]] this bk have "?L ! j = ?L ! k" by simp
    moreover from ok have "distinct ?L" by (simp add: timers_ok_def distinct_map)
    ultimately show False using jk k by (simp add: nth_eq_iff_index_eq)
  qed
  have sm: "same_node (?L ! k) ((?L ! k)\<lparr>id_te := ECO_POLL_DELETED_EVENT_ID\<rparr>)"
    by (simp add: same_node_def)
  from timers_ok_update [OF ok k(1) sm] L' have ok': "timers_ok (p\<lparr>timeEventHead := L'\<rparr>)" by simp
  from k L' have kl: "k < length L'" by simp
  then have mem: "L' ! k \<in> set (rest (length (timeEventHead (p\<lparr>timeEventHead := L'\<rparr>)))
      (timeEventHead (p\<lparr>timeEventHead := L'\<rparr>)))"
    by (simp add: rest_all)
  from k L' bk tk have "born (L' ! k) = tid \<and> id_te (L' ! k) = ECO_POLL_DELETED_EVENT_ID \<and>
    finalizerProc (L' ! k) = finalizerProc te \<and> clientData_te (L' ! k) = clientData_te te"
    by simp
  with mem have "pending tid (finalizerProc te) (clientData_te te)
      (length (timeEventHead (p\<lparr>timeEventHead := L'\<rparr>))) (p\<lparr>timeEventHead := L'\<rparr>)"
    unfolding pending_def by (rule bexI [rotated])
  then have "pending tid (finalizerProc te) (clientData_te te) (length L') (p\<lparr>timeEventHead := L'\<rparr>)"
    by simp
  with e no ok' show ?thesis by blast
qed

lemma force_due_same: "list_all2 same_node L (force_due L)"
  by (induction L) (auto simp: force_due_def same_node_def)

lemma guard_evolves:
  "evolves p ((if g then p\<lparr>timeEventHead := force_due (timeEventHead p)\<rparr> else p)\<lparr>lastTime := now\<rparr>)"
  by (rule evolvesI_same) (auto simp: force_due_same list_all2_same_node_refl)

lemma guard_length:
  "length (timeEventHead ((if g then p\<lparr>timeEventHead := force_due (timeEventHead p)\<rparr> else p)\<lparr>lastTime := now\<rparr>))
     = length (timeEventHead p)"
  by (simp add: force_due_def)

lemma processTimeEvents_sweep:
  "processTimeEvents E s =
     sweep E (timeEventNextId (loop s) - 1) (length (timeEventHead (loop s))) None 0
       (s\<lparr>loop := (if time_now E (tick s) < lastTime (loop s)
                      then (loop s)\<lparr>timeEventHead := force_due (timeEventHead (loop s))\<rparr>
                      else loop s)\<lparr>lastTime := time_now E (tick s)\<rparr>,
           tick := tick s + 1\<rparr>)"
  by (simp add: processTimeEvents_def Let_def force_due_def)

lemma processTimeEvents_pending:
  assumes "processTimeEvents E s = Some (n, s')" and ok: "timers_ok (loop s)"
    and pe: "pending tid f c (length (timeEventHead (loop s))) (loop s)"
  shows "gone tid (loop s') \<and>
     (\<exists>new. calls s' = calls s @ new \<and>
        filter (\<lambda>x. call_born x = Some tid) new = (if f \<noteq> 0 then [CallFinalizer f c tid] else []))"
proof -
  let ?p2 = "(if time_now E (tick s) < lastTime (loop s)
              then (loop s)\<lparr>timeEventHead := force_due (timeEventHead (loop s))\<rparr>
              else loop s)\<lparr>lastTime := time_now E (tick s)\<rparr>"
  let ?s2 = "s\<lparr>loop := ?p2, tick := tick s + 1\<rparr>"
  let ?n = "length (timeEventHead (loop s))"
  from assms(1) have sw: "sweep E (timeEventNextId (loop s) - 1) ?n None 0 ?s2 = Some (n, s')"
    by (simp only: processTimeEvents_sweep)
  have e: "evolves (loop s) ?p2" by (rule guard_evolves)
  from evolves_timers_ok [OF e ok] guard_length [where p = "loop s"]
  have co: "cursor_ok ?n None (loop ?s2)" by (simp add: cursor_ok_def)
  from evolves_pending [OF e, of ?n tid f c] pe have pe2: "pending tid f c ?n (loop ?s2)" by simp
  from sweep_pending [OF sw co pe2] show ?thesis by simp
qed

lemma processTimeEvents_gone:
  assumes "processTimeEvents E s = Some (n, s')" and g: "gone tid (loop s)"
  shows "gone tid (loop s') \<and>
     (\<exists>new. calls s' = calls s @ new \<and> (\<forall>x\<in>set new. call_born x \<noteq> Some tid))"
proof -
  let ?p2 = "(if time_now E (tick s) < lastTime (loop s)
              then (loop s)\<lparr>timeEventHead := force_due (timeEventHead (loop s))\<rparr>
              else loop s)\<lparr>lastTime := time_now E (tick s)\<rparr>"
  let ?s2 = "s\<lparr>loop := ?p2, tick := tick s + 1\<rparr>"
  from assms(1) have sw: "sweep E (timeEventNextId (loop s) - 1) (length (timeEventHead (loop s))) None 0 ?s2
      = Some (n, s')"
    by (simp only: processTimeEvents_sweep)
  from evolves_gone [OF guard_evolves g] have "gone tid (loop ?s2)" by simp
  from sweep_gone [OF sw this] show ?thesis by simp
qed

lemma apply_actions_timers_ok:
  "apply_actions acts p = Some p' \<Longrightarrow> timers_ok p \<Longrightarrow> timers_ok p'"
  by (rule apply_actions_inv [of timers_ok, OF evolves_timers_ok])

lemma apply_actions_pending:
  assumes "apply_actions acts p = Some p'"
    and "pending tid f c (length (timeEventHead p)) p"
  shows "pending tid f c (length (timeEventHead p')) p'"
proof -
  let ?n = "length (timeEventHead p)"
  from apply_actions_inv [of "\<lambda>p. ?n \<le> length (timeEventHead p) \<and> pending tid f c ?n p",
      OF evolves_pending assms(1)] assms(2)
  have "?n \<le> length (timeEventHead p') \<and> pending tid f c ?n p'" by simp
  then show ?thesis by (auto intro: pending_mono)
qed

lemma apply_actions_gone:
  "apply_actions acts p = Some p' \<Longrightarrow> gone tid p \<Longrightarrow> gone tid p'"
  by (rule apply_actions_inv [of "gone tid", OF evolves_gone])

text \<open>
  What holds of a timer that is in the list when it is cancelled. Let \<open>tid\<close> be the id of
  such a timer in a well-formed loop. The first cancel succeeds; a second cancel with the
  same id reports failure and changes nothing. Whatever calls are made on the loop after
  the cancellation, the next sweep that starts invokes the timer's finalizer exactly once
  when it has one, invokes no timer callback for the timer, and leaves the loop without
  the node. From then on, whatever calls are made, no sweep invokes anything for that
  timer. Nothing is said here of a timer created while a sweep is running.
\<close>

theorem cancel_timer:
  assumes "timers_ok p" and "te \<in> set (timeEventHead p)" and "id_te te = tid"
    and "tid \<noteq> ECO_POLL_DELETED_EVENT_ID"
  shows "fst (eco_poll_time_event_delete p tid) = ES_SUCCESS \<and>
         eco_poll_time_event_delete (snd (eco_poll_time_event_delete p tid)) tid
           = (ES_FAILURE, snd (eco_poll_time_event_delete p tid)) \<and>
         (\<forall>acts E s n s'.
            apply_actions acts (snd (eco_poll_time_event_delete p tid)) = Some (loop s) \<and>
            processTimeEvents E s = Some (n, s') \<longrightarrow>
              gone tid (loop s') \<and>
              (\<exists>new. calls s' = calls s @ new \<and>
                 filter (\<lambda>x. call_born x = Some tid) new
                   = (if finalizerProc te \<noteq> 0
                      then [CallFinalizer (finalizerProc te) (clientData_te te) tid] else []))) \<and>
         (\<forall>q acts E s n s'.
            gone tid q \<and> apply_actions acts q = Some (loop s) \<and>
            processTimeEvents E s = Some (n, s') \<longrightarrow>
              gone tid (loop s') \<and>
              (\<exists>new. calls s' = calls s @ new \<and> (\<forall>x\<in>set new. call_born x \<noteq> Some tid)))"
proof -
  from cancel_marks [OF assms] obtain L' where
    e: "eco_poll_time_event_delete p tid = (ES_SUCCESS, p\<lparr>timeEventHead := L'\<rparr>)"
    and no: "tid \<notin> id_te ` set L'"
    and ok': "timers_ok (p\<lparr>timeEventHead := L'\<rparr>)"
    and pe: "pending tid (finalizerProc te) (clientData_te te) (length L') (p\<lparr>timeEventHead := L'\<rparr>)"
    by blast
  let ?p1 = "p\<lparr>timeEventHead := L'\<rparr>"
  from e have 1: "fst (eco_poll_time_event_delete p tid) = ES_SUCCESS"
    and p1: "snd (eco_poll_time_event_delete p tid) = ?p1" by simp_all
  from no have 2: "eco_poll_time_event_delete ?p1 tid = (ES_FAILURE, ?p1)"
    by (simp add: eco_poll_time_event_delete_def mark_deleted_None_iff [THEN iffD2])
  have 3: "gone tid (loop s') \<and>
              (\<exists>new. calls s' = calls s @ new \<and>
                 filter (\<lambda>x. call_born x = Some tid) new
                   = (if finalizerProc te \<noteq> 0
                      then [CallFinalizer (finalizerProc te) (clientData_te te) tid] else []))"
    if a: "apply_actions acts ?p1 = Some (loop s)" and b: "processTimeEvents E s = Some (n, s')"
    for acts E s n s'
  proof -
    from apply_actions_timers_ok [OF a ok'] have ok: "timers_ok (loop s)" .
    from pe have "pending tid (finalizerProc te) (clientData_te te) (length (timeEventHead ?p1)) ?p1"
      by simp
    from apply_actions_pending [OF a this]
    have "pending tid (finalizerProc te) (clientData_te te) (length (timeEventHead (loop s))) (loop s)" .
    from processTimeEvents_pending [OF b ok this] show ?thesis .
  qed
  have 4: "gone tid (loop s') \<and>
              (\<exists>new. calls s' = calls s @ new \<and> (\<forall>x\<in>set new. call_born x \<noteq> Some tid))"
    if g: "gone tid q" and a: "apply_actions acts q = Some (loop s)"
      and b: "processTimeEvents E s = Some (n, s')" for q acts E s n s'
    using processTimeEvents_gone [OF b apply_actions_gone [OF a g]] .
  from 1 2 3 4 show ?thesis unfolding p1 by blast
qed

lemma armed_eq:
  "armed = fresh_loop \<lparr> timeEventNextId := 1,
     timeEventHead := [\<lparr> id_te = 0, when_sec = 6, when_ms = 0, timeProc = 1,
                         finalizerProc = 9, clientData_te = 4, born = 0 \<rparr>] \<rparr>"
  by (simp add: armed_def eco_poll_time_event_create_def aeAddMillisecondsToNow_def Let_def
      fresh_loop_def)

text \<open>
  For instance, a timer with finalizer 9 and user data 4 is created, cancelled, cancelled
  again and swept: the sweep calls the finalizer once and the list is empty.
\<close>

theorem cancel_timer_witness:
  "fst (eco_poll_time_event_delete armed 0) = ES_SUCCESS \<and>
   eco_poll_time_event_delete (snd (eco_poll_time_event_delete armed 0)) 0
     = (ES_FAILURE, snd (eco_poll_time_event_delete armed 0)) \<and>
   map_option (\<lambda>r. (fst r, calls (snd r), timeEventHead (loop (snd r))))
     (processTimeEvents quiet_env
        \<lparr> loop = snd (eco_poll_time_event_delete armed 0), tick = 0, calls = [] \<rparr>)
     = Some (0, [CallFinalizer 9 4 0], [])"
proof -
  let ?te = "\<lparr> id_te = 0, when_sec = 6, when_ms = 0, timeProc = 1,
               finalizerProc = 9, clientData_te = 4, born = 0 \<rparr>"
  have ok: "timers_ok armed" by (simp add: armed_eq timers_ok_def fresh_loop_def)
  have te: "?te \<in> set (timeEventHead armed)" "id_te ?te = 0"
    "(0::int) \<noteq> ECO_POLL_DELETED_EVENT_ID"
    by (simp_all add: armed_eq fresh_loop_def ECO_POLL_DELETED_EVENT_ID_def)
  note t = cancel_timer [OF ok te]
  have "map_option (\<lambda>r. (fst r, calls (snd r), timeEventHead (loop (snd r))))
     (processTimeEvents quiet_env
        \<lparr> loop = snd (eco_poll_time_event_delete armed 0), tick = 0, calls = [] \<rparr>)
     = Some (0, [CallFinalizer 9 4 0], [])"
    by (simp add: armed_eq fresh_loop_def eco_poll_time_event_delete_def processTimeEvents_def
        sweep_step_def due_def unlinked_def invoke_def quiet_env_def force_due_def consts_simps Let_def)
  with t show ?thesis by blast
qed

text \<open>
  C4. The claim: for every timer id returned by a create and then cancelled, the first
  cancel succeeds, a second one reports not-found, the timer's callback is not invoked
  after the cancellation, and its finalizer, if any, is invoked exactly once, on the next
  sweep that visits the node, which removes it.

  The code breaks it for a timer created by a finalizer during a sweep. When the sweep
  unlinks a node while \<^verbatim>\<open>prev\<close> is NULL it writes \<^verbatim>\<open>te->next\<close> into \<^verbatim>\<open>poll->timeEventHead\<close>,
  taking \<^verbatim>\<open>te\<close> for the head; a node that a finalizer has prepended since is dropped from
  the list without being finalized or freed. On the loop with the two cancelled timers
  1 and 0 (reached from the fresh loop by two creates and two cancels), the finalizer of
  timer 1 creates a timer, which gets id 2, and cancels it, which succeeds; unlinking
  timer 0 then drops the new node. The sweep invokes the finalizers 8 and 9 only, the
  list is empty afterwards, and the next sweep invokes nothing: finalizer 6 of timer 2
  never runs. When the finalizer only creates the timer, the first cancel of id 2 after
  the sweep reports failure.
\<close>

theorem cancel_timer_leak:
  "apply_actions [TimeEventCreate 1000 1 0 9 True (5, 0), TimeEventCreate 1000 1 0 8 True (5, 0),
                  TimeEventDelete 1, TimeEventDelete 0] fresh_loop = Some two_cancelled \<and>
   fst (eco_poll_time_event_create first_unlinked 5 1 7 6 True (20, 0)) = Inr 2 \<and>
   fst (eco_poll_time_event_delete
          (snd (eco_poll_time_event_create first_unlinked 5 1 7 6 True (20, 0))) 2) = ES_SUCCESS \<and>
   processTimeEvents leaking_env \<lparr> loop = two_cancelled, tick = 0, calls = [] \<rparr>
     = Some (0, \<lparr> loop = after_leak, tick = 3,
                   calls = [CallFinalizer 8 0 1, CallFinalizer 9 0 0] \<rparr>) \<and>
   processTimeEvents leaking_env \<lparr> loop = after_leak, tick = 3,
                                   calls = [CallFinalizer 8 0 1, CallFinalizer 9 0 0] \<rparr>
     = Some (0, \<lparr> loop = after_leak, tick = 4,
                   calls = [CallFinalizer 8 0 1, CallFinalizer 9 0 0] \<rparr>) \<and>
   processTimeEvents creating_env \<lparr> loop = two_cancelled, tick = 0, calls = [] \<rparr>
     = Some (0, \<lparr> loop = after_leak, tick = 3,
                   calls = [CallFinalizer 8 0 1, CallFinalizer 9 0 0] \<rparr>) \<and>
   eco_poll_time_event_delete after_leak 2 = (ES_FAILURE, after_leak)"
proof -
  have 1: "apply_actions [TimeEventCreate 1000 1 0 9 True (5, 0), TimeEventCreate 1000 1 0 8 True (5, 0),
                  TimeEventDelete 1, TimeEventDelete 0] fresh_loop = Some two_cancelled"
    by (simp add: two_cancelled_def fresh_loop_def cancelled_at_def timer_at_def
        eco_poll_time_event_create_def eco_poll_time_event_delete_def aeAddMillisecondsToNow_def
        consts_simps Let_def)
  have 2: "fst (eco_poll_time_event_create first_unlinked 5 1 7 6 True (20, 0)) = Inr 2"
    by (simp add: eco_poll_time_event_create_def Let_def first_unlinked_def two_cancelled_def)
  have 3: "fst (eco_poll_time_event_delete
          (snd (eco_poll_time_event_create first_unlinked 5 1 7 6 True (20, 0))) 2) = ES_SUCCESS"
    by (simp add: eco_poll_time_event_create_def eco_poll_time_event_delete_def Let_def
        first_unlinked_def two_cancelled_def)
  have 4: "processTimeEvents leaking_env \<lparr> loop = two_cancelled, tick = 0, calls = [] \<rparr>
     = Some (0, \<lparr> loop = after_leak, tick = 3,
                   calls = [CallFinalizer 8 0 1, CallFinalizer 9 0 0] \<rparr>)"
    by (simp add: processTimeEvents_def sweep_step_def due_def unlinked_def invoke_def
        leaking_env_def two_cancelled_def after_leak_def fresh_loop_def cancelled_at_def
        timer_at_def force_due_def eco_poll_time_event_create_def eco_poll_time_event_delete_def
        aeAddMillisecondsToNow_def consts_simps Let_def)
  have 5: "processTimeEvents leaking_env \<lparr> loop = after_leak, tick = 3,
                                   calls = [CallFinalizer 8 0 1, CallFinalizer 9 0 0] \<rparr>
     = Some (0, \<lparr> loop = after_leak, tick = 4,
                   calls = [CallFinalizer 8 0 1, CallFinalizer 9 0 0] \<rparr>)"
    by (simp add: processTimeEvents_def leaking_env_def after_leak_def two_cancelled_def
        fresh_loop_def force_due_def Let_def)
  have 6: "processTimeEvents creating_env \<lparr> loop = two_cancelled, tick = 0, calls = [] \<rparr>
     = Some (0, \<lparr> loop = after_leak, tick = 3,
                   calls = [CallFinalizer 8 0 1, CallFinalizer 9 0 0] \<rparr>)"
    by (simp add: processTimeEvents_def sweep_step_def due_def unlinked_def invoke_def
        creating_env_def two_cancelled_def after_leak_def fresh_loop_def cancelled_at_def
        timer_at_def force_due_def eco_poll_time_event_create_def
        aeAddMillisecondsToNow_def consts_simps Let_def)
  have 7: "eco_poll_time_event_delete after_leak 2 = (ES_FAILURE, after_leak)"
    by (simp add: eco_poll_time_event_delete_def after_leak_def)
  from 1 2 3 4 5 6 7 show ?thesis by blast
qed

subsection \<open>Clock regression\<close>








subsection \<open>The timer list stays well formed\<close>

text \<open>
  \<open>timers_ok\<close> holds of a created loop and is kept by every call, by the sweep and by a
  whole iteration.
\<close>

lemma sweep_timers_ok:
  "sweep E maxId n pv pr s = Some (pr', s') \<Longrightarrow> cursor_ok n pv (loop s) \<Longrightarrow> timers_ok (loop s')"
proof (induction n arbitrary: pv pr s)
  case 0
  then show ?case by (simp add: cursor_ok_def)
next
  case (Suc m)
  from Suc.prems(1) obtain pv1 pr1 s1 where st: "sweep_step E maxId (Suc m) pv pr s = Some (pv1, pr1, s1)"
    and r: "sweep E maxId m pv1 pr1 s1 = Some (pr', s')"
    by (auto split: option.splits)
  from sweep_step_cursor_ok [OF st Suc.prems(2)] have "cursor_ok m pv1 (loop s1)" by simp
  with r show ?case by (rule Suc.IH)
qed

lemma processTimeEvents_timers_ok:
  assumes "processTimeEvents E s = Some (n, s')" and "timers_ok (loop s)"
  shows "timers_ok (loop s')"
proof -
  let ?p2 = "(if time_now E (tick s) < lastTime (loop s)
              then (loop s)\<lparr>timeEventHead := force_due (timeEventHead (loop s))\<rparr>
              else loop s)\<lparr>lastTime := time_now E (tick s)\<rparr>"
  let ?s2 = "s\<lparr>loop := ?p2, tick := tick s + 1\<rparr>"
  from assms(1) have sw: "sweep E (timeEventNextId (loop s) - 1) (length (timeEventHead (loop s))) None 0 ?s2
      = Some (n, s')"
    by (simp only: processTimeEvents_sweep)
  from evolves_timers_ok [OF guard_evolves assms(2)] guard_length [where p = "loop s"]
  have "cursor_ok (length (timeEventHead (loop s))) None (loop ?s2)" by (simp add: cursor_ok_def)
  with sw show ?thesis by (rule sweep_timers_ok)
qed

lemma invoke_timers_ok:
  "invoke E c s = Some (r, s') \<Longrightarrow> timers_ok (loop s) \<Longrightarrow> timers_ok (loop s')"
  by (rule invoke_inv [of timers_ok, OF evolves_timers_ok])

lemma dispatch_entry_timers_ok:
  assumes "dispatch_entry E e s = Some s'" and "timers_ok (loop s)"
  shows "timers_ok (loop s')"
proof -
  obtain fd m where e: "e = (fd, m)" by (cases e)
  let ?fe = "events (loop s) ! nat fd"
  let ?r = "mask ?fe AND m AND ECO_POLL_READABLE \<noteq> 0"
  from assms(1) e obtain s1 where
    1: "(if ?r \<and> rfileProc ?fe \<noteq> 0
         then map_option snd (invoke E (CallFileProc (rfileProc ?fe) fd (clientData ?fe) m) s)
         else Some s) = Some s1"
    and 2: "(let fe = events (loop s1) ! nat fd in
               if mask fe AND m AND ECO_POLL_WRITABLE \<noteq> 0
                  \<and> wfileProc fe \<noteq> 0 \<and> (\<not> ?r \<or> wfileProc fe \<noteq> rfileProc fe)
               then map_option snd (invoke E (CallFileProc (wfileProc fe) fd (clientData fe) m) s1)
               else Some s1) = Some s'"
    by (auto simp: dispatch_entry_def Let_def split: if_splits option.splits)
  from 1 assms(2) have "timers_ok (loop s1)"
    by (auto split: if_splits dest: invoke_timers_ok)
  with 2 show ?thesis
    by (auto simp: Let_def split: if_splits dest: invoke_timers_ok)
qed

lemma dispatch_fired_timers_ok:
  "dispatch_fired E es n s = Some (n', s') \<Longrightarrow> timers_ok (loop s) \<Longrightarrow> timers_ok (loop s')"
  by (induction es arbitrary: n s) (auto split: option.splits dest: dispatch_entry_timers_ok)

lemma eco_poll_create_timers_ok:
  "eco_poll_create sz mok aok now g = Some p0 \<Longrightarrow> timers_ok p0"
  by (auto simp: eco_poll_create_def timers_ok_def split: if_splits)

lemma wait_budget_loop: "loop (snd (wait_budget E sh t s)) = loop s"
  by (simp add: wait_budget_def Let_def split: option.splits)

lemma process_events_timers_ok:
  assumes "eco_poll_process_events E flags timeout s = Some (n, s')" and "timers_ok (loop s)"
  shows "timers_ok (loop s')"
proof (cases "flags AND ECO_POLL_TIME_EVENTS = 0 \<and> flags AND ECO_POLL_FILE_EVENTS = 0")
  case True
  with assms show ?thesis by (simp add: eco_poll_process_events_def)
next
  case False
  let ?polls = "maxfd (loop s) \<noteq> - 1 \<or> (flags AND ECO_POLL_TIME_EVENTS \<noteq> 0 \<and> timeout \<noteq> 0)"
  let ?sh = "(if flags AND ECO_POLL_TIME_EVENTS \<noteq> 0 \<and> timeout \<noteq> 0
              then aeSearchNearestTimer (loop s) else None)"
  let ?b = "wait_budget E ?sh timeout s"
  let ?s1 = "snd ?b"
  from assms(1) False obtain k s2 where
    d: "(if ?polls then dispatch_fired E (aeApiPoll E (tick ?s1) (fst ?b)) 0 (?s1\<lparr>tick := tick ?s1 + 1\<rparr>)
         else Some (0, s)) = Some (k, s2)"
    and t: "(if flags AND ECO_POLL_TIME_EVENTS \<noteq> 0
            then map_option (\<lambda>r. (k + fst r, snd r)) (processTimeEvents E s2)
            else Some (k, s2)) = Some (n, s')"
    by (auto simp: eco_poll_process_events_def Let_def split: option.splits prod.splits if_splits)
  have "timers_ok (loop s2)"
  proof (cases ?polls)
    case True
    with d have "dispatch_fired E (aeApiPoll E (tick ?s1) (fst ?b)) 0 (?s1\<lparr>tick := tick ?s1 + 1\<rparr>) = Some (k, s2)"
      by simp
    from dispatch_fired_timers_ok [OF this] assms(2) show ?thesis by (simp add: wait_budget_loop)
  next
    case f: False
    with d have "s2 = s" by (auto split: if_splits)
    with assms(2) show ?thesis by simp
  qed
  with t show ?thesis by (auto split: if_splits dest: processTimeEvents_timers_ok)
qed

end
